theory Spec2Isabelle
  imports Main "HOL-Library.Word" "HOL-Library.Sublist"
begin

section \<open>JavaScript strings\<close>

text \<open>
  A JavaScript string is a sequence of UTF-16 code units. The methods \<open>trim\<close>,
  \<open>includes\<close>, \<open>split\<close> and a regular expression without the \<open>u\<close> flag work on
  code units; a regular expression with the \<open>u\<close> flag reads code points, pairing a
  high surrogate with the low surrogate that follows it and taking every other unit
  as the code point of its own value.
\<close>

type_synonym jsstring = "16 word list"

definition ascii :: "string \<Rightarrow> jsstring" where
  "ascii s = map (\<lambda>c. of_nat (of_char c)) s"

definition isHighSurrogate :: "16 word \<Rightarrow> bool" where
  "isHighSurrogate u = (0xD800 \<le> u \<and> u \<le> 0xDBFF)"

definition isLowSurrogate :: "16 word \<Rightarrow> bool" where
  "isLowSurrogate u = (0xDC00 \<le> u \<and> u \<le> 0xDFFF)"

definition codePoint :: "16 word \<Rightarrow> 16 word \<Rightarrow> nat" where
  "codePoint h l = 0x10000 + (unat h - 0xD800) * 0x400 + (unat l - 0xDC00)"

text \<open>The units matched by \<open>\s\<close> and stripped by \<open>trim\<close>: WhiteSpace and LineTerminator.\<close>

definition isWhiteSpace :: "16 word \<Rightarrow> bool" where
  "isWhiteSpace u =
     ((0x09 \<le> u \<and> u \<le> 0x0D) \<or> u = 0x20 \<or> u = 0xA0 \<or> u = 0x1680
      \<or> (0x2000 \<le> u \<and> u \<le> 0x200A) \<or> u = 0x2028 \<or> u = 0x2029 \<or> u = 0x202F
      \<or> u = 0x205F \<or> u = 0x3000 \<or> u = 0xFEFF)"

definition trim :: "jsstring \<Rightarrow> jsstring" where
  "trim s = rev (dropWhile isWhiteSpace (rev (dropWhile isWhiteSpace s)))"

definition inRange :: "nat \<Rightarrow> nat \<Rightarrow> nat \<Rightarrow> bool" where
  "inRange lo hi c = (lo \<le> c \<and> c \<le> hi)"

text \<open>\<open>s.replace(/[...]/gu, '')\<close> for a character class \<open>P\<close> of code points.\<close>

fun stripCodePoints :: "(nat \<Rightarrow> bool) \<Rightarrow> jsstring \<Rightarrow> jsstring" where
  "stripCodePoints P [] = []"
| "stripCodePoints P [a] = (if P (unat a) then [] else [a])"
| "stripCodePoints P (a # b # r) =
     (if isHighSurrogate a \<and> isLowSurrogate b
      then (if P (codePoint a b) then stripCodePoints P r
            else a # b # stripCodePoints P r)
      else (if P (unat a) then stripCodePoints P (b # r)
            else a # stripCodePoints P (b # r)))"

text \<open>\<open>s.replace(/\s+/g, ' ')\<close>: every maximal run of white space becomes one space.\<close>

function collapseSpaces :: "jsstring \<Rightarrow> jsstring" where
  "collapseSpaces [] = []"
| "collapseSpaces (u # s) =
     (if isWhiteSpace u then 0x20 # collapseSpaces (dropWhile isWhiteSpace s)
      else u # collapseSpaces s)"
  by pat_completeness auto
termination
  by (relation "measure length") (auto simp: length_dropWhile_le less_Suc_eq_le)

section \<open>CSVService: the field sanitizer\<close>

text \<open>The twelve \<open>replace\<close> calls with the \<open>u\<close> flag, in the order of the source.\<close>

definition stripEmojiRanges :: "jsstring \<Rightarrow> jsstring" where
  "stripEmojiRanges text =
      stripCodePoints (inRange 0x200D 0x200D)
      (stripCodePoints (inRange 0x20D0 0x20FF)
      (stripCodePoints (inRange 0xFE00 0xFE0F)
      (stripCodePoints (inRange 0x1FA70 0x1FAFF)
      (stripCodePoints (inRange 0x1F900 0x1F9FF)
      (stripCodePoints (inRange 0x2701 0x27BE)
      (stripCodePoints (inRange 0x2700 0x27BF)
      (stripCodePoints (inRange 0x2600 0x26FF)
      (stripCodePoints (inRange 0x1F1E0 0x1F1FF)
      (stripCodePoints (inRange 0x1F680 0x1F6FF)
      (stripCodePoints (inRange 0x1F300 0x1F5FF)
      (stripCodePoints (inRange 0x1F600 0x1F64F) text)))))))))))"

definition removeEmojis :: "jsstring \<Rightarrow> jsstring" where
  "removeEmojis text = trim (collapseSpaces (stripEmojiRanges text))"

text \<open>\<open>s.replace(/"/g, '""')\<close>\<close>

definition doubleQuotes :: "jsstring \<Rightarrow> jsstring" where
  "doubleQuotes s = concat (map (\<lambda>u. if u = 0x22 then [0x22, 0x22] else [u]) s)"

text \<open>The argument is \<open>None\<close> for \<open>null\<close> and \<open>undefined\<close>.\<close>

definition escapeCsvField :: "jsstring option \<Rightarrow> jsstring" where
  "escapeCsvField field =
     (case field of
        None \<Rightarrow> ascii ''Null''
      | Some original \<Rightarrow>
          if original = [] \<or> trim original = [] then ascii ''Nan''
          else let escaped = removeEmojis original in
            if escaped = [] \<or> trim escaped = [] then []
            else if 0x2C \<in> set escaped \<or> 0x22 \<in> set escaped \<or> 0x0A \<in> set escaped
                 then [0x22] @ doubleQuotes escaped @ [0x22]
                 else escaped)"

text \<open>
  Predicates on strings used to state properties of the sanitizer. \<open>clean Q s\<close>: the
  string has no unpaired surrogate and every code point of it satisfies \<open>Q\<close>.
  \<open>isStripped\<close>: the code points that \<open>stripEmojiRanges\<close> removes. \<open>spaced s\<close>: every
  white space unit of the string is a space and no two of them are adjacent.
\<close>

fun clean :: "(nat \<Rightarrow> bool) \<Rightarrow> jsstring \<Rightarrow> bool" where
  "clean Q [] = True"
| "clean Q [a] = (\<not> isHighSurrogate a \<and> \<not> isLowSurrogate a \<and> Q (unat a))"
| "clean Q (a # b # r) =
     (if isHighSurrogate a then isLowSurrogate b \<and> Q (codePoint a b) \<and> clean Q r
      else \<not> isLowSurrogate a \<and> Q (unat a) \<and> clean Q (b # r))"

definition wellFormed :: "jsstring \<Rightarrow> bool" where
  "wellFormed s = clean (\<lambda>c. True) s"

definition isStripped :: "nat \<Rightarrow> bool" where
  "isStripped c =
     (inRange 0x1F600 0x1F64F c \<or> inRange 0x1F300 0x1F5FF c \<or> inRange 0x1F680 0x1F6FF c
      \<or> inRange 0x1F1E0 0x1F1FF c \<or> inRange 0x2600 0x26FF c \<or> inRange 0x2700 0x27BF c
      \<or> inRange 0x2701 0x27BE c \<or> inRange 0x1F900 0x1F9FF c \<or> inRange 0x1FA70 0x1FAFF c
      \<or> inRange 0xFE00 0xFE0F c \<or> inRange 0x20D0 0x20FF c \<or> inRange 0x200D 0x200D c)"

fun spaced :: "jsstring \<Rightarrow> bool" where
  "spaced [] = True"
| "spaced [a] = (isWhiteSpace a \<longrightarrow> a = 0x20)"
| "spaced (a # b # r) = ((isWhiteSpace a \<longrightarrow> a = 0x20 \<and> \<not> isWhiteSpace b) \<and> spaced (b # r))"

section \<open>CSVService: serialization and export statistics\<close>

text \<open>
  The review records of the two services. A text field is \<open>None\<close> when the upstream
  object has no such property (\<open>mapReviewData\<close> copies the properties of an untyped
  object). The fields \<open>id\<close> and \<open>text\<close> are named \<open>reviewId\<close> and \<open>reviewText\<close>,
  and the fields of the App Store record carry the prefix \<open>as_\<close>.
\<close>

record ReviewData =
  reviewId :: "jsstring option"
  userName :: "jsstring option"
  userImage :: "jsstring option"
  date :: "jsstring option"
  score :: int
  scoreText :: "jsstring option"
  url :: "jsstring option"
  reviewText :: "jsstring option"
  replyDate :: "jsstring option"
  replyText :: "jsstring option"
  version :: "jsstring option"
  thumbsUp :: int

record AppStoreReviewData =
  as_id :: "jsstring option"
  as_userName :: "jsstring option"
  as_userUrl :: "jsstring option"
  as_version :: "jsstring option"
  as_score :: int
  as_title :: "jsstring option"
  as_text :: "jsstring option"
  as_url :: "jsstring option"
  as_date :: "jsstring option"

text \<open>
  \<open>Array.prototype.join\<close> on strings, and the decimal form that \<open>join\<close> gives a
  number; \<open>score\<close> and \<open>thumbsUp\<close> are integers.
\<close>

fun join :: "jsstring \<Rightarrow> jsstring list \<Rightarrow> jsstring" where
  "join sep [] = []"
| "join sep [x] = x"
| "join sep (x # y # r) = x @ sep @ join sep (y # r)"

definition digitUnit :: "nat \<Rightarrow> 16 word" where
  "digitUnit d = [0x30, 0x31, 0x32, 0x33, 0x34, 0x35, 0x36, 0x37, 0x38, 0x39] ! d"

fun digitsOf :: "nat \<Rightarrow> jsstring" where
  "digitsOf n = (if n < 10 then [digitUnit n]
                 else digitsOf (n div 10) @ [digitUnit (n mod 10)])"

declare digitsOf.simps [simp del]

definition numberToString :: "int \<Rightarrow> jsstring" where
  "numberToString i = (if i < 0 then 0x2D # digitsOf (nat (- i)) else digitsOf (nat i))"

text \<open>\<open>String.prototype.split\<close> with a string separator.\<close>

function splitFrom :: "jsstring \<Rightarrow> jsstring \<Rightarrow> jsstring \<Rightarrow> jsstring list" where
  "splitFrom sep cur [] = [cur]"
| "splitFrom sep cur (c # r) =
     (if sep \<noteq> [] \<and> prefix sep (c # r)
      then cur # splitFrom sep [] (drop (length sep) (c # r))
      else splitFrom sep (cur @ [c]) r)"
  by pat_completeness auto
termination
  by (relation "measure (\<lambda>(sep, cur, s). length s)") auto

definition split :: "jsstring \<Rightarrow> jsstring \<Rightarrow> jsstring list" where
  "split s sep = (if sep = [] then map (\<lambda>c. [c]) s else splitFrom sep [] s)"

definition delimiter :: jsstring where
  "delimiter = ascii '';;''"

definition newline :: jsstring where
  "newline = [0x0A]"

definition csvHeader :: jsstring where
  "csvHeader = join delimiter
     [ascii ''id'', ascii ''userName'', ascii ''content'', ascii ''score'', ascii ''date'',
      ascii ''thumbsUp'', ascii ''version'']"

text \<open>\<open>review.version || ''\<close>: an absent or empty version is the empty string.\<close>

definition versionOrEmpty :: "jsstring option \<Rightarrow> jsstring option" where
  "versionOrEmpty v = (case v of None \<Rightarrow> Some [] | Some s \<Rightarrow> Some s)"

definition csvRow :: "ReviewData \<Rightarrow> jsstring" where
  "csvRow review = join delimiter
     [escapeCsvField (reviewId review),
      escapeCsvField (userName review),
      escapeCsvField (reviewText review),
      numberToString (score review),
      escapeCsvField (date review),
      numberToString (thumbsUp review),
      escapeCsvField (versionOrEmpty (version review))]"

definition csvContent :: "ReviewData list \<Rightarrow> jsstring" where
  "csvContent reviews = join newline (csvHeader # map csvRow reviews)"

definition appStoreCsvHeader :: jsstring where
  "appStoreCsvHeader = join delimiter
     [ascii ''id'', ascii ''userName'', ascii ''title'', ascii ''content'', ascii ''score'',
      ascii ''version'', ascii ''date'']"

definition appStoreCsvRow :: "AppStoreReviewData \<Rightarrow> jsstring" where
  "appStoreCsvRow review = join delimiter
     [escapeCsvField (as_id review),
      escapeCsvField (as_userName review),
      escapeCsvField (as_title review),
      escapeCsvField (as_text review),
      numberToString (as_score review),
      escapeCsvField (as_version review),
      escapeCsvField (as_date review)]"

definition appStoreCsvContent :: "AppStoreReviewData list \<Rightarrow> jsstring" where
  "appStoreCsvContent reviews = join newline (appStoreCsvHeader # map appStoreCsvRow reviews)"

text \<open>
  The export directory is a map from file paths to file contents. The two export
  methods write the content under the path made of the output directory and the file
  name, here the argument \<open>filePath\<close>, and return that path; \<open>getExportStats\<close> reads the
  file back and fails when it does not exist. Of the statistics, the path and the
  review count are modelled (the sizes and time stamps come from \<open>fs.statSync\<close>).
\<close>

type_synonym filesystem = "jsstring \<rightharpoonup> jsstring"

datatype error = Error jsstring

record ExportStats =
  es_filePath :: jsstring
  es_lines :: int
  es_reviewCount :: int

definition exportReviewsToCSV ::
  "ReviewData list \<Rightarrow> jsstring \<Rightarrow> filesystem \<Rightarrow> jsstring \<times> filesystem" where
  "exportReviewsToCSV reviews filePath fs = (filePath, fs(filePath \<mapsto> csvContent reviews))"

definition exportAppStoreReviewsToCSV ::
  "AppStoreReviewData list \<Rightarrow> jsstring \<Rightarrow> filesystem \<Rightarrow> jsstring \<times> filesystem" where
  "exportAppStoreReviewsToCSV reviews filePath fs =
     (filePath, fs(filePath \<mapsto> appStoreCsvContent reviews))"

definition getExportStats :: "jsstring \<Rightarrow> filesystem \<Rightarrow> error + ExportStats" where
  "getExportStats filePath fs =
     (case fs filePath of
        None \<Rightarrow> Inl (Error (ascii ''Failed to get export statistics''))
      | Some content \<Rightarrow>
          let lines = int (length (split content newline)) - 1
          in Inr \<lparr>es_filePath = filePath, es_lines = lines, es_reviewCount = lines - 1\<rparr>)"

text \<open>
  A field value can be found again by splitting a row on the delimiter when it does not
  contain the delimiter and does not end with a semicolon.
\<close>

fun hasDelimiter :: "jsstring \<Rightarrow> bool" where
  "hasDelimiter [] = False"
| "hasDelimiter [x] = False"
| "hasDelimiter (x # y # r) = ((x = 0x3B \<and> y = 0x3B) \<or> hasDelimiter (y # r))"

definition delimiterSafe :: "jsstring \<Rightarrow> bool" where
  "delimiterSafe f = (\<not> hasDelimiter f \<and> (f = [] \<or> last f \<noteq> 0x3B))"

definition rowSafe :: "ReviewData \<Rightarrow> bool" where
  "rowSafe review =
     (delimiterSafe (escapeCsvField (reviewId review))
      \<and> delimiterSafe (escapeCsvField (userName review))
      \<and> delimiterSafe (escapeCsvField (reviewText review))
      \<and> delimiterSafe (escapeCsvField (date review))
      \<and> delimiterSafe (escapeCsvField (versionOrEmpty (version review))))"

definition appStoreRowSafe :: "AppStoreReviewData \<Rightarrow> bool" where
  "appStoreRowSafe review =
     (delimiterSafe (escapeCsvField (as_id review))
      \<and> delimiterSafe (escapeCsvField (as_userName review))
      \<and> delimiterSafe (escapeCsvField (as_title review))
      \<and> delimiterSafe (escapeCsvField (as_text review))
      \<and> delimiterSafe (escapeCsvField (as_version review))
      \<and> delimiterSafe (escapeCsvField (as_date review)))"

text \<open>Example records.\<close>

definition playExample :: "jsstring \<Rightarrow> ReviewData" where
  "playExample content =
     \<lparr>reviewId = Some (ascii ''1''), userName = Some (ascii ''u''), userImage = None,
      date = Some (ascii ''d''), score = 5, scoreText = None, url = None,
      reviewText = Some content, replyDate = None, replyText = None,
      version = None, thumbsUp = 0\<rparr>"

definition appStoreExample :: "jsstring \<Rightarrow> AppStoreReviewData" where
  "appStoreExample content =
     \<lparr>as_id = Some (ascii ''1''), as_userName = Some (ascii ''u''), as_userUrl = None,
      as_version = Some (ascii ''2.1''), as_score = 4, as_title = None,
      as_text = Some content, as_url = None, as_date = Some (ascii ''d'')\<rparr>"

section \<open>The upstream sources and the effects of a run\<close>

text \<open>
  The scrapers \<open>appStore.reviews\<close> and \<open>gplay.reviews\<close> are external: a call takes a
  request and returns a page or throws, and may answer the same request differently
  the next time. An upstream is a function of its own state and the request. The
  effects of a run are kept in the world: the state of the upstream, the log of the
  calls made with their outcomes, the delays waited for (milliseconds) and the
  messages given to \<open>console.error\<close>.
\<close>

datatype thrown = ThrownError jsstring | ThrownOther

definition errorMessage :: "thrown \<Rightarrow> jsstring" where
  "errorMessage e = (case e of ThrownError m \<Rightarrow> m | ThrownOther \<Rightarrow> ascii ''Unknown error'')"

type_synonym ('s, 'rq, 'pg) upstream = "'s \<Rightarrow> 'rq \<Rightarrow> (thrown + 'pg) \<times> 's"

record ('s, 'rq, 'pg) world =
  ustate :: 's
  fetchLog :: "('rq \<times> (thrown + 'pg)) list"
  delays :: "nat list"
  errorLog :: "jsstring list"

definition newWorld :: "'s \<Rightarrow> ('s, 'rq, 'pg) world" where
  "newWorld s = \<lparr>ustate = s, fetchLog = [], delays = [], errorLog = []\<rparr>"

definition callUpstream ::
  "('s, 'rq, 'pg) upstream \<Rightarrow> 'rq \<Rightarrow> ('s, 'rq, 'pg) world \<Rightarrow> (thrown + 'pg) \<times> ('s, 'rq, 'pg) world" where
  "callUpstream up rq w =
     (let (res, s') = up (ustate w) rq
      in (res, w\<lparr>ustate := s', fetchLog := fetchLog w @ [(rq, res)]\<rparr>))"

definition setTimeout :: "nat \<Rightarrow> ('s, 'rq, 'pg) world \<Rightarrow> ('s, 'rq, 'pg) world" where
  "setTimeout ms w = w\<lparr>delays := delays w @ [ms]\<rparr>"

definition consoleError :: "jsstring \<Rightarrow> ('s, 'rq, 'pg) world \<Rightarrow> ('s, 'rq, 'pg) world" where
  "consoleError msg w = w\<lparr>errorLog := errorLog w @ [msg]\<rparr>"

text \<open>The requests made and the pages received, in the order of the calls.\<close>

definition requests :: "('s, 'rq, 'pg) world \<Rightarrow> 'rq list" where
  "requests w = map fst (fetchLog w)"

fun pagesOf :: "('rq \<times> (thrown + 'pg)) list \<Rightarrow> 'pg list" where
  "pagesOf [] = []"
| "pagesOf ((rq, Inl e) # l) = pagesOf l"
| "pagesOf ((rq, Inr p) # l) = p # pagesOf l"

text \<open>The body of a loop ends the loop or goes on to the next iteration.\<close>

datatype 'a iteration = Break 'a | Next 'a

section \<open>Target counts\<close>

text \<open>
  The number of reviews asked for is a JavaScript number. A request handler computes it
  as \<open>Math.max(parseInt(num) || fallback, 1)\<close>, and \<open>parseInt\<close> of a string gives \<open>NaN\<close>,
  an integer or, for a numeral of more than 309 digits, \<open>Infinity\<close> or \<open>-Infinity\<close>.
  \<open>NaN\<close> and \<open>0\<close> are falsy and give way to the fallback, so the target count of a
  request is an integer or \<open>Infinity\<close>. \<open>Finite n\<close> is the integer \<open>n\<close>. Page numbers,
  lengths and the fetched count are taken as integers: a JavaScript number counts by
  one exactly up to \<open>maxSafeInteger\<close> (\<open>Number.MAX_SAFE_INTEGER\<close>), and the theorem on
  the end of every run is stated for the targets up to this number.
\<close>

datatype parsedInt = NaN | Integer int | PosInfinity | NegInfinity

datatype jsnumber = Finite int | Infinity


text \<open>
  \<open>a < t\<close>, \<open>a <= t\<close>, \<open>a >= t\<close> and \<open>a === t\<close> for an integer \<open>a\<close> and a target
  count \<open>t\<close>.
\<close>

fun numLess :: "int \<Rightarrow> jsnumber \<Rightarrow> bool" where
  "numLess a (Finite n) = (a < n)"
| "numLess a Infinity = True"

fun numLessEq :: "int \<Rightarrow> jsnumber \<Rightarrow> bool" where
  "numLessEq a (Finite n) = (a \<le> n)"
| "numLessEq a Infinity = True"

fun numGreaterEq :: "int \<Rightarrow> jsnumber \<Rightarrow> bool" where
  "numGreaterEq a (Finite n) = (a \<ge> n)"
| "numGreaterEq a Infinity = False"

fun numEq :: "int \<Rightarrow> jsnumber \<Rightarrow> bool" where
  "numEq a (Finite n) = (a = n)"
| "numEq a Infinity = False"

text \<open>\<open>Math.min(t, a)\<close> and \<open>t - a\<close> for a target count \<open>t\<close> and an integer \<open>a\<close>.\<close>

fun mathMin :: "jsnumber \<Rightarrow> int \<Rightarrow> int" where
  "mathMin (Finite n) a = min n a"
| "mathMin Infinity a = a"

fun numMinus :: "jsnumber \<Rightarrow> int \<Rightarrow> jsnumber" where
  "numMinus (Finite n) a = Finite (n - a)"
| "numMinus Infinity a = Infinity"

text \<open>
  \<open>Array.prototype.splice(start)\<close>: the elements from \<open>start\<close> on are removed, none
  of them when \<open>start\<close> is \<open>Infinity\<close>.
\<close>

fun splice :: "jsnumber \<Rightarrow> 'a list \<Rightarrow> 'a list" where
  "splice (Finite start) xs =
     (if start < 0 then take (nat (max (int (length xs) + start) 0)) xs
      else take (nat start) xs)"
| "splice Infinity xs = xs"

section \<open>AppStoreService\<close>

datatype AppStoreSort = MostRecent | MostHelpful

datatype StoreSortConstant = RECENT | HELPFUL

record AppStoreReviewOptions =
  aso_appId :: jsstring
  aso_country :: "jsstring option"
  aso_page :: "int option"
  aso_sort :: "AppStoreSort option"

record AppStoreRequest =
  rq_id :: jsstring
  rq_country :: jsstring
  rq_page :: int
  rq_sort :: StoreSortConstant

record AppStoreReviewResponse =
  asr_reviews :: "AppStoreReviewData list"
  asr_hasMore :: bool
  asr_totalCount :: nat

type_synonym 's appStoreWorld = "('s, AppStoreRequest, AppStoreReviewData list) world"

type_synonym 's appStoreUpstream = "('s, AppStoreRequest, AppStoreReviewData list) upstream"

definition AppStoreService_mapSortOption :: "AppStoreSort \<Rightarrow> StoreSortConstant" where
  "AppStoreService_mapSortOption sortOption =
     (case sortOption of MostRecent \<Rightarrow> RECENT | MostHelpful \<Rightarrow> HELPFUL)"

definition AppStoreService_mapReviewData :: "AppStoreReviewData \<Rightarrow> AppStoreReviewData" where
  "AppStoreService_mapReviewData review =
     \<lparr>as_id = as_id review, as_userName = as_userName review, as_userUrl = as_userUrl review,
      as_version = as_version review, as_score = as_score review, as_title = as_title review,
      as_text = as_text review, as_url = as_url review, as_date = as_date review\<rparr>"

definition AppStoreService_getReviews ::
  "'s appStoreUpstream \<Rightarrow> AppStoreReviewOptions \<Rightarrow> 's appStoreWorld
     \<Rightarrow> (error + AppStoreReviewResponse) \<times> 's appStoreWorld" where
  "AppStoreService_getReviews up options w =
     (let country = (case aso_country options of None \<Rightarrow> ascii ''tr'' | Some c \<Rightarrow> c);
          page = (case aso_page options of None \<Rightarrow> 1 | Some p \<Rightarrow> p);
          sortOption = (case aso_sort options of None \<Rightarrow> MostRecent | Some s \<Rightarrow> s)
      in case callUpstream up
             \<lparr>rq_id = aso_appId options, rq_country = country, rq_page = page,
              rq_sort = AppStoreService_mapSortOption sortOption\<rparr> w of
           (Inr result, w1) \<Rightarrow>
             (Inr \<lparr>asr_reviews = map AppStoreService_mapReviewData result,
                   asr_hasMore = (length result = 50),
                   asr_totalCount = length result\<rparr>, w1)
         | (Inl e, w1) \<Rightarrow>
             (Inl (Error (ascii ''Failed to fetch App Store reviews: '' @ errorMessage e)),
              consoleError (ascii ''Error fetching App Store reviews:'') w1))"

definition reviewsPerPage :: int where
  "reviewsPerPage = 50"

text \<open>\<open>Math.ceil(totalReviews / reviewsPerPage)\<close>.\<close>

fun totalPagesOf :: "jsnumber \<Rightarrow> jsnumber" where
  "totalPagesOf (Finite n) = Finite (- ((- n) div reviewsPerPage))"
| "totalPagesOf Infinity = Infinity"

text \<open>
  The body of the \<open>for\<close> loop of \<open>getReviewsWithPagination\<close>: \<open>Break\<close> for \<open>break\<close>,
  \<open>Next\<close> for the end of the body and for the \<open>continue\<close> of the \<open>catch\<close> block.
\<close>

definition paginationBody ::
  "'s appStoreUpstream \<Rightarrow> AppStoreReviewOptions \<Rightarrow> jsnumber \<Rightarrow> int
     \<Rightarrow> AppStoreReviewData list \<Rightarrow> 's appStoreWorld
     \<Rightarrow> AppStoreReviewData list iteration \<times> 's appStoreWorld" where
  "paginationBody up options totalReviews page allReviews w =
     (let country = (case aso_country options of None \<Rightarrow> ascii ''tr'' | Some c \<Rightarrow> c);
          sortOption = (case aso_sort options of None \<Rightarrow> MostRecent | Some s \<Rightarrow> s)
      in case AppStoreService_getReviews up
             \<lparr>aso_appId = aso_appId options, aso_country = Some country,
              aso_page = Some page, aso_sort = Some sortOption\<rparr> w of
           (Inr pageResult, w1) \<Rightarrow>
             if length (asr_reviews pageResult) = 0 then (Break allReviews, w1)
             else let pushed = allReviews @ asr_reviews pageResult in
               if numGreaterEq (int (length pushed)) totalReviews
               then (Break (splice totalReviews pushed), w1)
               else if int (length (asr_reviews pageResult)) < reviewsPerPage
               then (Break pushed, w1)
               else (Next pushed, setTimeout 1000 w1)
         | (Inl e, w1) \<Rightarrow>
             (Next allReviews,
              consoleError (ascii ''Error fetching App Store page '' @ numberToString page
                            @ ascii '':'') w1))"

text \<open>
  The \<open>for\<close> loop of \<open>getReviewsWithPagination\<close>. A run that never leaves the loop
  has the value \<open>None\<close>.
\<close>

partial_function (option) paginationLoop ::
  "'s appStoreUpstream \<Rightarrow> AppStoreReviewOptions \<Rightarrow> jsnumber \<Rightarrow> jsnumber \<Rightarrow> int
     \<Rightarrow> AppStoreReviewData list \<Rightarrow> 's appStoreWorld
     \<Rightarrow> (AppStoreReviewData list \<times> 's appStoreWorld) option" where
  "paginationLoop up options totalReviews totalPages page allReviews w =
     (if numLessEq page totalPages
      then (case paginationBody up options totalReviews page allReviews w of
              (Break final, w1) \<Rightarrow> Some (final, w1)
            | (Next pushed, w1) \<Rightarrow>
                paginationLoop up options totalReviews totalPages (page + 1) pushed w1)
      else Some (allReviews, w))"

definition AppStoreService_getReviewsWithPagination ::
  "'s appStoreUpstream \<Rightarrow> AppStoreReviewOptions \<Rightarrow> jsnumber \<Rightarrow> 's appStoreWorld
     \<Rightarrow> (AppStoreReviewResponse \<times> 's appStoreWorld) option" where
  "AppStoreService_getReviewsWithPagination up options totalReviews w =
     (let totalPages = totalPagesOf totalReviews
      in case paginationLoop up options totalReviews totalPages 1 [] w of
           None \<Rightarrow> None
         | Some (allReviews, w1) \<Rightarrow>
             Some (\<lparr>asr_reviews = allReviews,
                    asr_hasMore = numEq (int (length allReviews)) totalReviews,
                    asr_totalCount = length allReviews\<rparr>, w1))"

text \<open>
  The handler of \<open>GET /api/reviews/appstore/:appId\<close>. \<open>numParam\<close> is what \<open>parseInt\<close>
  made of the query parameter \<open>num\<close> (the parameter defaults to \<open>'100'\<close>), \<open>sortParam\<close>
  the query parameter \<open>sort\<close>. The handler awaits the service: where the service
  does not return, neither does the handler.
\<close>

datatype 'a httpResponse = Status400 jsstring jsstring | Status500 jsstring jsstring | Json 'a

record AppStoreReviewsJson =
  js_data :: "AppStoreReviewData list"
  js_requestedCount :: jsnumber
  js_actualCount :: nat
  js_hasMore :: bool

text \<open>\<open>Math.max(parseInt(num) || fallback, 1)\<close> for a fallback that is not \<open>0\<close>.\<close>

fun numReviewsOf :: "parsedInt \<Rightarrow> int \<Rightarrow> jsnumber" where
  "numReviewsOf NaN fallback = Finite (max fallback 1)"
| "numReviewsOf (Integer n) fallback = Finite (max (if n = 0 then fallback else n) 1)"
| "numReviewsOf PosInfinity fallback = Infinity"
| "numReviewsOf NegInfinity fallback = Finite 1"

definition appStoreReviewsHandler ::
  "'s appStoreUpstream \<Rightarrow> jsstring \<Rightarrow> parsedInt \<Rightarrow> jsstring \<Rightarrow> jsstring \<Rightarrow> 's appStoreWorld
     \<Rightarrow> (AppStoreReviewsJson httpResponse \<times> 's appStoreWorld) option" where
  "appStoreReviewsHandler up appId numParam country sortParam w =
     (if appId = []
      then Some (Status400 (ascii ''Invalid app ID'')
              (ascii ''App Store app ID is required and must be a valid string''), w)
      else
        let numReviews = numReviewsOf numParam 100;
            sortOrder = (if sortParam = ascii ''mostHelpful'' then MostHelpful else MostRecent);
            awaited =
              (if numGreaterEq 50 numReviews
               then Some (AppStoreService_getReviews up
                      \<lparr>aso_appId = appId, aso_country = Some country, aso_page = None,
                       aso_sort = Some sortOrder\<rparr> w)
               else (case AppStoreService_getReviewsWithPagination up
                             \<lparr>aso_appId = appId, aso_country = Some country, aso_page = None,
                              aso_sort = Some sortOrder\<rparr> numReviews w of
                       None \<Rightarrow> None
                     | Some (r, w2) \<Rightarrow> Some (Inr r, w2)))
        in case awaited of
             None \<Rightarrow> None
           | Some (Inr r, w1) \<Rightarrow>
               Some (Json \<lparr>js_data = asr_reviews r, js_requestedCount = numReviews,
                            js_actualCount = length (asr_reviews r),
                            js_hasMore = asr_hasMore r\<rparr>, w1)
           | Some (Inl (Error message), w1) \<Rightarrow>
               Some (Status500 (ascii ''Failed to fetch App Store reviews'') message,
                     consoleError (ascii ''Error in App Store reviews endpoint:'') w1))"

section \<open>ReviewService\<close>

datatype PlaySort = Newest | Rating | Helpfulness

datatype GplaySortConstant = NEWEST | RATING | HELPFULNESS

record ReviewOptions =
  ro_appId :: jsstring
  ro_lang :: "jsstring option"
  ro_country :: "jsstring option"
  ro_sort :: "PlaySort option"
  ro_num :: "jsnumber option"
  ro_paginate :: "bool option"
  ro_nextPaginationToken :: "jsstring option"

record GplayRequest =
  gp_appId :: jsstring
  gp_lang :: jsstring
  gp_country :: jsstring
  gp_sort :: GplaySortConstant
  gp_num :: int
  gp_paginate :: bool
  gp_nextPaginationToken :: "jsstring option"

record GplayResult =
  gp_data :: "ReviewData list"
  gp_resultToken :: "jsstring option"

record ReviewResponse =
  rr_reviews :: "ReviewData list"
  rr_nextPaginationToken :: "jsstring option"
  rr_totalCount :: "nat option"

type_synonym 's playWorld = "('s, GplayRequest, GplayResult) world"

type_synonym 's playUpstream = "('s, GplayRequest, GplayResult) upstream"

text \<open>\<open>if (token)\<close>: an absent and an empty token are falsy.\<close>

definition truthy :: "jsstring option \<Rightarrow> bool" where
  "truthy token = (case token of None \<Rightarrow> False | Some t \<Rightarrow> t \<noteq> [])"

definition ReviewService_mapSortOption :: "PlaySort \<Rightarrow> GplaySortConstant" where
  "ReviewService_mapSortOption sortOption =
     (case sortOption of Newest \<Rightarrow> NEWEST | Rating \<Rightarrow> RATING | Helpfulness \<Rightarrow> HELPFULNESS)"

definition ReviewService_mapReviewData :: "ReviewData \<Rightarrow> ReviewData" where
  "ReviewService_mapReviewData review =
     \<lparr>reviewId = reviewId review, userName = userName review, userImage = userImage review,
      date = date review, score = score review, scoreText = scoreText review,
      url = url review, reviewText = reviewText review, replyDate = replyDate review,
      replyText = replyText review, version = version review, thumbsUp = thumbsUp review\<rparr>"

definition batchSize :: int where
  "batchSize = 200"

definition fetchSingleBatch ::
  "'s playUpstream \<Rightarrow> ReviewOptions \<Rightarrow> 's playWorld \<Rightarrow> (error + ReviewResponse) \<times> 's playWorld" where
  "fetchSingleBatch up options w =
     (let lang = (case ro_lang options of None \<Rightarrow> ascii ''tr'' | Some l \<Rightarrow> l);
          country = (case ro_country options of None \<Rightarrow> ascii ''tr'' | Some c \<Rightarrow> c);
          sortOption = (case ro_sort options of None \<Rightarrow> Newest | Some s \<Rightarrow> s);
          num = (case ro_num options of None \<Rightarrow> Finite 100 | Some n \<Rightarrow> n);
          paginate = (case ro_paginate options of None \<Rightarrow> True | Some p \<Rightarrow> p)
      in case callUpstream up
             \<lparr>gp_appId = ro_appId options, gp_lang = lang, gp_country = country,
              gp_sort = ReviewService_mapSortOption sortOption, gp_num = mathMin num 200,
              gp_paginate = paginate,
              gp_nextPaginationToken =
                (if truthy (ro_nextPaginationToken options)
                 then ro_nextPaginationToken options else None)\<rparr> w of
           (Inr result, w1) \<Rightarrow>
             (Inr \<lparr>rr_reviews = map ReviewService_mapReviewData (gp_data result),
                   rr_nextPaginationToken = gp_resultToken result,
                   rr_totalCount = Some (length (gp_data result))\<rparr>, w1)
         | (Inl e, w1) \<Rightarrow>
             (Inl (Error (ascii ''Failed to fetch reviews batch: '' @ errorMessage e)),
              consoleError (ascii ''Error fetching single batch:'') w1))"

record FetchState =
  st_allReviews :: "ReviewData list"
  st_nextToken :: "jsstring option"
  st_fetchedCount :: int

text \<open>
  The body of the \<open>while\<close> loop of \<open>fetchLargeDataset\<close>. The call of
  \<open>fetchSingleBatch\<close> stands in no \<open>try\<close> block: what it throws ends the method.
\<close>

definition fetchBody ::
  "'s playUpstream \<Rightarrow> ReviewOptions \<Rightarrow> jsnumber \<Rightarrow> FetchState \<Rightarrow> 's playWorld
     \<Rightarrow> (error + FetchState iteration) \<times> 's playWorld" where
  "fetchBody up options num st w =
     (let lang = (case ro_lang options of None \<Rightarrow> ascii ''tr'' | Some l \<Rightarrow> l);
          country = (case ro_country options of None \<Rightarrow> ascii ''tr'' | Some c \<Rightarrow> c);
          sortOption = (case ro_sort options of None \<Rightarrow> Newest | Some s \<Rightarrow> s);
          remainingCount = numMinus num (st_fetchedCount st);
          currentBatchSize = mathMin remainingCount batchSize
      in case fetchSingleBatch up
             \<lparr>ro_appId = ro_appId options, ro_lang = Some lang, ro_country = Some country,
              ro_sort = Some sortOption, ro_num = Some (Finite currentBatchSize),
              ro_paginate = Some True, ro_nextPaginationToken = st_nextToken st\<rparr> w of
           (Inl e, w1) \<Rightarrow> (Inl e, w1)
         | (Inr batchResult, w1) \<Rightarrow>
             if length (rr_reviews batchResult) = 0 then (Inr (Break st), w1)
             else let st' = \<lparr>st_allReviews = st_allReviews st @ rr_reviews batchResult,
                             st_nextToken = rr_nextPaginationToken batchResult,
                             st_fetchedCount = st_fetchedCount st + int (length (rr_reviews batchResult))\<rparr>
               in if \<not> truthy (st_nextToken st') then (Inr (Break st'), w1)
                  else (Inr (Next st'), setTimeout 500 w1))"

text \<open>
  The \<open>while\<close> loop of \<open>fetchLargeDataset\<close>. A run that never leaves the loop has the
  value \<open>None\<close>.
\<close>

partial_function (option) fetchLoop ::
  "'s playUpstream \<Rightarrow> ReviewOptions \<Rightarrow> jsnumber \<Rightarrow> FetchState \<Rightarrow> 's playWorld
     \<Rightarrow> ((error + FetchState) \<times> 's playWorld) option" where
  "fetchLoop up options num st w =
     (if numLess (st_fetchedCount st) num
      then (case fetchBody up options num st w of
              (Inl e, w1) \<Rightarrow> Some (Inl e, w1)
            | (Inr (Break st'), w1) \<Rightarrow> Some (Inr st', w1)
            | (Inr (Next st'), w1) \<Rightarrow> fetchLoop up options num st' w1)
      else Some (Inr st, w))"

definition fetchLargeDataset ::
  "'s playUpstream \<Rightarrow> ReviewOptions \<Rightarrow> 's playWorld
     \<Rightarrow> ((error + ReviewResponse) \<times> 's playWorld) option" where
  "fetchLargeDataset up options w =
     (let num = (case ro_num options of None \<Rightarrow> Finite 100 | Some n \<Rightarrow> n)
      in case fetchLoop up options num
             \<lparr>st_allReviews = [], st_nextToken = None, st_fetchedCount = 0\<rparr> w of
           None \<Rightarrow> None
         | Some (Inl e, w1) \<Rightarrow> Some (Inl e, w1)
         | Some (Inr st, w1) \<Rightarrow>
             Some (Inr \<lparr>rr_reviews = st_allReviews st, rr_nextPaginationToken = st_nextToken st,
                         rr_totalCount = Some (length (st_allReviews st))\<rparr>, w1))"

text \<open>
  \<open>getReviews\<close> returns the promise of either method without awaiting it, so its own
  \<open>catch\<close> block never runs and a failure is passed on as it is.
\<close>

definition ReviewService_getReviews ::
  "'s playUpstream \<Rightarrow> ReviewOptions \<Rightarrow> 's playWorld
     \<Rightarrow> ((error + ReviewResponse) \<times> 's playWorld) option" where
  "ReviewService_getReviews up options w =
     (let num = (case ro_num options of None \<Rightarrow> Finite 100 | Some n \<Rightarrow> n)
      in if numLess 200 num then fetchLargeDataset up options w
         else Some (fetchSingleBatch up options w))"

section \<open>Sources that serve a list of reviews\<close>

text \<open>
  An upstream that has the reviews of the list \<open>src\<close> available and never fails. The
  App Store source answers a request for page \<open>p\<close> with the 50 reviews from position
  \<open>50 (p - 1)\<close> on. The Play source answers a request with as many reviews as were
  asked for, from the position its token stands for, and gives a token for the next
  position while reviews remain; the token for position \<open>n\<close> is a string of \<open>n\<close> letters.
  \<open>received\<close> and \<open>receivedPlay\<close> are the reviews of all pages a run has received, and
  \<open>appStoreRequest\<close> and \<open>gplayRequest\<close> the requests that the two loop bodies send.
\<close>

definition pagedSource :: "AppStoreReviewData list \<Rightarrow> 's appStoreUpstream" where
  "pagedSource src s rq = (Inr (take 50 (drop (50 * nat (rq_page rq - 1)) src)), s)"

definition received :: "'s appStoreWorld \<Rightarrow> AppStoreReviewData list" where
  "received w = concat (pagesOf (fetchLog w))"

definition appStoreRequest :: "AppStoreReviewOptions \<Rightarrow> int \<Rightarrow> AppStoreRequest" where
  "appStoreRequest options page =
     \<lparr>rq_id = aso_appId options,
      rq_country = (case aso_country options of None \<Rightarrow> ascii ''tr'' | Some c \<Rightarrow> c),
      rq_page = page,
      rq_sort = AppStoreService_mapSortOption
        (case aso_sort options of None \<Rightarrow> MostRecent | Some s \<Rightarrow> s)\<rparr>"

definition tokenOf :: "nat \<Rightarrow> jsstring" where
  "tokenOf n = replicate n 0x78"

definition offsetOf :: "jsstring option \<Rightarrow> nat" where
  "offsetOf token = (case token of None \<Rightarrow> 0 | Some t \<Rightarrow> length t)"

definition playSource :: "ReviewData list \<Rightarrow> 's playUpstream" where
  "playSource src s rq =
     (let off = offsetOf (gp_nextPaginationToken rq);
          pageData = take (nat (gp_num rq)) (drop off src);
          nextOffset = off + length pageData
      in (Inr \<lparr>gp_data = pageData,
               gp_resultToken =
                 (if nextOffset < length src then Some (tokenOf nextOffset) else None)\<rparr>, s))"

definition receivedPlay :: "'s playWorld \<Rightarrow> ReviewData list" where
  "receivedPlay w = concat (map gp_data (pagesOf (fetchLog w)))"

definition gplayRequest :: "ReviewOptions \<Rightarrow> jsnumber \<Rightarrow> FetchState \<Rightarrow> GplayRequest" where
  "gplayRequest options num st =
     \<lparr>gp_appId = ro_appId options,
      gp_lang = (case ro_lang options of None \<Rightarrow> ascii ''tr'' | Some l \<Rightarrow> l),
      gp_country = (case ro_country options of None \<Rightarrow> ascii ''tr'' | Some c \<Rightarrow> c),
      gp_sort = ReviewService_mapSortOption
        (case ro_sort options of None \<Rightarrow> Newest | Some s \<Rightarrow> s),
      gp_num = min (mathMin (numMinus num (st_fetchedCount st)) batchSize) 200,
      gp_paginate = True,
      gp_nextPaginationToken = (if truthy (st_nextToken st) then st_nextToken st else None)\<rparr>"

text \<open>The state of \<open>fetchLargeDataset\<close> on the Play source after \<open>f\<close> reviews.\<close>

definition sourceState :: "ReviewData list \<Rightarrow> nat \<Rightarrow> FetchState" where
  "sourceState src f =
     \<lparr>st_allReviews = take f src,
      st_nextToken = (if 0 < f \<and> f < length src then Some (tokenOf f) else None),
      st_fetchedCount = int (min f (length src))\<rparr>"

section \<open>Example upstreams and requests\<close>

text \<open>
  \<open>flakyPlay\<close> answers its first call with one review and a token and fails from then
  on (its state counts the calls); \<open>endlessPlay\<close> answers every call with one review and
  a token; \<open>generousPlay\<close> answers every call with the whole list, whatever number the
  request asks for; \<open>failingStore\<close> fails every call.
\<close>

definition flakyPlay :: "nat playUpstream" where
  "flakyPlay n rq =
     (if n = 0
      then Inr \<lparr>gp_data = [playExample (ascii ''ok'')], gp_resultToken = Some (ascii ''t'')\<rparr>
      else Inl (ThrownError (ascii ''boom'')), Suc n)"

definition endlessPlay :: "nat playUpstream" where
  "endlessPlay n rq =
     (Inr \<lparr>gp_data = [playExample (ascii ''ok'')], gp_resultToken = Some (ascii ''t'')\<rparr>, n)"

definition generousPlay :: "ReviewData list \<Rightarrow> nat playUpstream" where
  "generousPlay src n rq = (Inr \<lparr>gp_data = src, gp_resultToken = None\<rparr>, n)"

definition playOptions :: "jsnumber \<Rightarrow> ReviewOptions" where
  "playOptions n =
     \<lparr>ro_appId = ascii ''com.example'', ro_lang = None, ro_country = None, ro_sort = None,
      ro_num = Some n, ro_paginate = None, ro_nextPaginationToken = None\<rparr>"

definition appStoreOptions :: AppStoreReviewOptions where
  "appStoreOptions =
     \<lparr>aso_appId = ascii ''310633997'', aso_country = None, aso_page = None, aso_sort = None\<rparr>"

definition failingStore :: "unit appStoreUpstream" where
  "failingStore s rq = (Inl (ThrownError (ascii ''boom'')), s)"

definition storeWorld :: "unit appStoreWorld" where
  "storeWorld = newWorld ()"

definition playWorld :: "nat \<Rightarrow> nat playWorld" where
  "playWorld n = newWorld n"

definition twoReviews :: "AppStoreReviewData list" where
  "twoReviews = [appStoreExample (ascii ''a''), appStoreExample (ascii ''b'')]"

definition threePlayReviews :: "ReviewData list" where
  "threePlayReviews =
     [playExample (ascii ''a''), playExample (ascii ''b''), playExample (ascii ''c'')]"


definition manyReviews :: "AppStoreReviewData list" where
  "manyReviews = replicate 130 (appStoreExample (ascii ''x''))"

section \<open>Properties of the sanitizer\<close>

lemma all_dropWhile_iff: "(\<forall>x\<in>set (dropWhile P xs). P x) = (\<forall>x\<in>set xs. P x)"
  by (induction xs) auto

lemma trim_Nil_iff: "(trim s = []) = list_all isWhiteSpace s"
  by (simp add: trim_def list_all_iff dropWhile_eq_Nil_conv all_dropWhile_iff)

text \<open>
  C3: an absent field gives \<open>Null\<close>; a present field that is empty or all white space
  gives \<open>Nan\<close>; a field that is not blank and of which \<open>removeEmojis\<close> leaves nothing,
  such as the single emoji U+1F600, gives the empty string, which is neither sentinel.
\<close>

theorem escapeCsvField_tri_state:
  "escapeCsvField None = ascii ''Null''
   \<and> (list_all isWhiteSpace s \<longrightarrow> escapeCsvField (Some s) = ascii ''Nan'')
   \<and> (\<not> list_all isWhiteSpace t \<and> removeEmojis t = [] \<longrightarrow> escapeCsvField (Some t) = [])
   \<and> escapeCsvField (Some [0xD83D, 0xDE00]) = []
   \<and> [] \<noteq> ascii ''Null'' \<and> [] \<noteq> ascii ''Nan''"
proof -
  have absent: "escapeCsvField None = ascii ''Null''"
    by (simp add: escapeCsvField_def)
  have blank: "escapeCsvField (Some s) = ascii ''Nan''" if "list_all isWhiteSpace s"
    using that by (simp add: escapeCsvField_def trim_Nil_iff)
  have stripped: "escapeCsvField (Some t) = []"
    if "\<not> list_all isWhiteSpace t" "removeEmojis t = []"
  proof -
    from that(1) have "trim t \<noteq> []" "t \<noteq> []"
      by (auto simp: trim_Nil_iff)
    with that(2) show ?thesis by (simp add: escapeCsvField_def)
  qed
  have emoji: "escapeCsvField (Some [0xD83D, 0xDE00]) = []"
    by (simp add: escapeCsvField_def removeEmojis_def stripEmojiRanges_def trim_def
        isWhiteSpace_def isHighSurrogate_def isLowSurrogate_def codePoint_def inRange_def)
  have distinct: "[] \<noteq> ascii ''Null'' \<and> [] \<noteq> ascii ''Nan''"
    by (simp add: ascii_def)
  from absent blank stripped emoji distinct show ?thesis by blast
qed

theorem escapeCsvField_tri_state_witness:
  "list_all isWhiteSpace (ascii ''   '')
   \<and> escapeCsvField (Some (ascii ''   '')) = ascii ''Nan''
   \<and> \<not> list_all isWhiteSpace [0xD83D, 0xDE00] \<and> removeEmojis [0xD83D, 0xDE00] = []
   \<and> escapeCsvField (Some [0xD83D, 0xDE00]) = []"
proof -
  have a: "list_all isWhiteSpace (ascii ''   '')"
    by (simp add: ascii_def isWhiteSpace_def)
  have b: "\<not> list_all isWhiteSpace [0xD83D, 0xDE00]"
    by (simp add: isWhiteSpace_def)
  have c: "removeEmojis [0xD83D, 0xDE00] = []"
    by (simp add: removeEmojis_def stripEmojiRanges_def trim_def isHighSurrogate_def
        isLowSurrogate_def codePoint_def inRange_def)
  from a b c
    escapeCsvField_tri_state [of "ascii ''   ''" "[0xD83D, 0xDE00]"]
  show ?thesis by blast
qed

section \<open>Properties of the serializer\<close>

lemma set_stripCodePoints: "set (stripCodePoints P s) \<subseteq> set s"
  by (induction P s rule: stripCodePoints.induct) auto

lemma in_stripCodePoints: "u \<in> set (stripCodePoints P s) \<Longrightarrow> u \<in> set s"
  using set_stripCodePoints by blast

lemma set_stripEmojiRanges: "set (stripEmojiRanges s) \<subseteq> set s"
  unfolding stripEmojiRanges_def
  by (auto dest!: in_stripCodePoints)

lemma set_collapseSpaces: "set (collapseSpaces s) \<subseteq> insert 0x20 (set s)"
proof (induction s rule: collapseSpaces.induct)
  case 1
  then show ?case by simp
next
  case (2 u s)
  show ?case
  proof (cases "isWhiteSpace u")
    case True
    with 2 have "set (collapseSpaces (dropWhile isWhiteSpace s)) \<subseteq> insert 0x20 (set (dropWhile isWhiteSpace s))"
      by simp
    moreover have "set (dropWhile isWhiteSpace s) \<subseteq> set s"
      by (rule set_dropWhileD [THEN subsetI]) 
    ultimately show ?thesis using True by auto
  next
    case False
    with 2 show ?thesis by auto
  qed
qed

lemma collapseSpaces_space: "u \<in> set (collapseSpaces s) \<Longrightarrow> isWhiteSpace u \<Longrightarrow> u = 0x20"
proof (induction s rule: collapseSpaces.induct)
  case 1
  then show ?case by simp
next
  case (2 v s)
  then show ?case by (cases "isWhiteSpace v") auto
qed

lemma set_trim: "set (trim s) \<subseteq> set s"
proof -
  have "set (dropWhile isWhiteSpace (rev (dropWhile isWhiteSpace s))) \<subseteq> set (rev (dropWhile isWhiteSpace s))"
    by (rule set_dropWhileD [THEN subsetI])
  also have "\<dots> \<subseteq> set s"
    using set_dropWhileD [of _ isWhiteSpace s] by auto
  finally show ?thesis by (simp add: trim_def)
qed

lemma set_doubleQuotes: "set (doubleQuotes s) = set s"
  by (induction s) (auto simp: doubleQuotes_def)

lemma newline_isWhiteSpace: "isWhiteSpace 0x0A"
  by (simp add: isWhiteSpace_def)

lemma removeEmojis_no_newline: "0x0A \<notin> set (removeEmojis s)"
proof
  assume "0x0A \<in> set (removeEmojis s)"
  then have "0x0A \<in> set (collapseSpaces (stripEmojiRanges s))"
    unfolding removeEmojis_def using set_trim by blast
  from collapseSpaces_space [OF this newline_isWhiteSpace] show False by simp
qed

lemma escapeCsvField_no_newline: "0x0A \<notin> set (escapeCsvField f)"
  using removeEmojis_no_newline
  by (auto simp: escapeCsvField_def ascii_def Let_def set_doubleQuotes split: option.splits)

lemma digitUnit_range: "d < 10 \<Longrightarrow> digitUnit d \<in> {0x30, 0x31, 0x32, 0x33, 0x34, 0x35, 0x36, 0x37, 0x38, 0x39}"
proof -
  assume "d < 10"
  then have "d \<in> {0,1,2,3,4,5,6,7,8,9}" by auto
  then show ?thesis by (auto simp: digitUnit_def)
qed

lemma digitsOf_units: "u \<in> set (digitsOf n) \<Longrightarrow> u \<noteq> 0x3B \<and> u \<noteq> 0x0A"
proof (induction n rule: digitsOf.induct)
  case (1 n)
  show ?case
  proof (cases "n < 10")
    case True
    with 1(2) have "u = digitUnit n" by (simp add: digitsOf.simps [of n])
    with digitUnit_range [OF True] show ?thesis by auto
  next
    case False
    have "n mod 10 < 10" by simp
    from digitUnit_range [OF this] have "digitUnit (n mod 10) \<noteq> 0x3B \<and> digitUnit (n mod 10) \<noteq> 0x0A"
      by auto
    with False 1 show ?thesis by (auto simp add: digitsOf.simps [of n])
  qed
qed

lemma numberToString_units: "u \<in> set (numberToString i) \<Longrightarrow> u \<noteq> 0x3B \<and> u \<noteq> 0x0A"
  using digitsOf_units by (auto simp: numberToString_def split: if_splits)

lemma splitFrom_single_free:
  "d \<notin> set f \<Longrightarrow> splitFrom [d] cur f = [cur @ f]"
  by (induction f arbitrary: cur) auto

lemma splitFrom_single_sep:
  "d \<notin> set f \<Longrightarrow> splitFrom [d] cur (f @ d # rest) = (cur @ f) # splitFrom [d] [] rest"
  by (induction f arbitrary: cur) auto

lemma splitFrom_double_free:
  "d \<notin> set f \<Longrightarrow> splitFrom [d, d] cur f = [cur @ f]"
  by (induction f arbitrary: cur) auto

lemma splitFrom_double_sep:
  "d \<notin> set f \<Longrightarrow> splitFrom [d, d] cur (f @ d # d # rest) = (cur @ f) # splitFrom [d, d] [] rest"
  by (induction f arbitrary: cur) auto

lemma split_join_single:
  "list_all (\<lambda>l. d \<notin> set l) ls \<Longrightarrow> ls \<noteq> [] \<Longrightarrow> splitFrom [d] [] (join [d] ls) = ls"
proof (induction "[d]" ls rule: join.induct)
  case 1
  then show ?case by simp
next
  case (2 x)
  then show ?case by (simp add: splitFrom_single_free)
next
  case (3 x y r)
  then show ?case using splitFrom_single_sep [of d x "[]" "join [d] (y # r)"] by simp
qed

lemma delimiter_eq: "delimiter = [0x3B, 0x3B]"
  by (simp add: delimiter_def ascii_def)

lemmas sanitize_eval = escapeCsvField_def removeEmojis_def stripEmojiRanges_def trim_def
  isWhiteSpace_def isHighSurrogate_def isLowSurrogate_def codePoint_def inRange_def
  doubleQuotes_def ascii_def


lemma hasDelimiter_semicolon: "hasDelimiter f \<Longrightarrow> 0x3B \<in> set f"
  by (induction f rule: hasDelimiter.induct) auto

lemma semicolon_free_safe: "0x3B \<notin> set f \<Longrightarrow> delimiterSafe f"
proof -
  assume free: "0x3B \<notin> set f"
  then have "\<not> hasDelimiter f" using hasDelimiter_semicolon by blast
  moreover have "f = [] \<or> last f \<noteq> 0x3B"
  proof (cases "f = []")
    case False
    then have "last f \<in> set f" by simp
    with free show ?thesis by auto
  qed simp
  ultimately show ?thesis by (simp add: delimiterSafe_def)
qed

lemma splitFrom_no_delimiter:
  "\<not> hasDelimiter f \<Longrightarrow> splitFrom [0x3B, 0x3B] cur f = [cur @ f]"
  by (induction f arbitrary: cur rule: hasDelimiter.induct) auto

lemma splitFrom_safe_field:
  "delimiterSafe f \<Longrightarrow>
   splitFrom [0x3B, 0x3B] cur (f @ 0x3B # 0x3B # rest) = (cur @ f) # splitFrom [0x3B, 0x3B] [] rest"
  unfolding delimiterSafe_def
  by (induction f arbitrary: cur rule: hasDelimiter.induct) auto

lemma split_join_safe:
  "list_all delimiterSafe fs \<Longrightarrow> fs \<noteq> [] \<Longrightarrow> split (join delimiter fs) delimiter = fs"
proof (induction delimiter fs rule: join.induct)
  case 1
  then show ?case by simp
next
  case (2 x)
  then show ?case
    by (simp add: split_def delimiter_eq delimiterSafe_def splitFrom_no_delimiter)
next
  case (3 x y r)
  then show ?case
    using splitFrom_safe_field [of x "[]" "join delimiter (y # r)"]
    by (simp add: split_def delimiter_eq)
qed

lemma numberToString_safe: "delimiterSafe (numberToString i)"
  using numberToString_units [of _ i] by (intro semicolon_free_safe) blast

lemma csvRow_fields: "rowSafe r \<Longrightarrow> length (split (csvRow r) delimiter) = 7"
  unfolding csvRow_def rowSafe_def
  by (subst split_join_safe) (simp_all add: numberToString_safe)

lemma appStoreCsvRow_fields: "appStoreRowSafe r \<Longrightarrow> length (split (appStoreCsvRow r) delimiter) = 7"
  unfolding appStoreCsvRow_def appStoreRowSafe_def
  by (subst split_join_safe) (simp_all add: numberToString_safe)

lemma csvHeader_fields: "length (split csvHeader delimiter) = 7"
  unfolding csvHeader_def
  by (subst split_join_safe) (simp_all add: semicolon_free_safe ascii_def)

lemma appStoreCsvHeader_fields: "length (split appStoreCsvHeader delimiter) = 7"
  unfolding appStoreCsvHeader_def
  by (subst split_join_safe) (simp_all add: semicolon_free_safe ascii_def)

lemma join_no_newline:
  "0x0A \<notin> set sep \<Longrightarrow> list_all (\<lambda>f. 0x0A \<notin> set f) fs \<Longrightarrow> 0x0A \<notin> set (join sep fs)"
  by (induction sep fs rule: join.induct) auto

lemma numberToString_no_newline: "0x0A \<notin> set (numberToString i)"
  using numberToString_units [of "0x0A" i] by blast

lemma csvRow_no_newline: "0x0A \<notin> set (csvRow r)"
  unfolding csvRow_def
  by (rule join_no_newline)
     (simp_all add: delimiter_eq escapeCsvField_no_newline numberToString_no_newline)

lemma appStoreCsvRow_no_newline: "0x0A \<notin> set (appStoreCsvRow r)"
  unfolding appStoreCsvRow_def
  by (rule join_no_newline)
     (simp_all add: delimiter_eq escapeCsvField_no_newline numberToString_no_newline)

lemma csvHeader_no_newline: "0x0A \<notin> set csvHeader"
  unfolding csvHeader_def
  by (rule join_no_newline) (simp_all add: delimiter_eq ascii_def)

lemma appStoreCsvHeader_no_newline: "0x0A \<notin> set appStoreCsvHeader"
  unfolding appStoreCsvHeader_def
  by (rule join_no_newline) (simp_all add: delimiter_eq ascii_def)

lemma split_lines:
  "list_all (\<lambda>l. 0x0A \<notin> set l) ls \<Longrightarrow> ls \<noteq> [] \<Longrightarrow> split (join newline ls) newline = ls"
  using split_join_single [of "0x0A" ls] by (simp add: split_def newline_def)

lemma csvContent_lines: "split (csvContent reviews) newline = csvHeader # map csvRow reviews"
  unfolding csvContent_def
  by (rule split_lines) (simp_all add: csvHeader_no_newline csvRow_no_newline list_all_iff)

lemma appStoreCsvContent_lines:
  "split (appStoreCsvContent reviews) newline = appStoreCsvHeader # map appStoreCsvRow reviews"
  unfolding appStoreCsvContent_def
  by (rule split_lines)
     (simp_all add: appStoreCsvHeader_no_newline appStoreCsvRow_no_newline list_all_iff)

text \<open>
  C5, evaluated: the sanitizer tests for a comma, not for the delimiter \<open>;;\<close> of the
  rows. A value that contains the delimiter is returned unquoted, and a value with a
  comma, which contains neither the delimiter nor a quote nor a newline, is quoted.
\<close>

theorem escapeCsvField_delimiter_unquoted:
  "escapeCsvField (Some (ascii ''a;;b'')) = ascii ''a;;b''
   \<and> escapeCsvField (Some (ascii ''a,b'')) = [0x22] @ ascii ''a,b'' @ [0x22]"
  by (simp add: sanitize_eval)

text \<open>
  C6, as stated, fails: a review text with the delimiter in it gives a row of eight
  fields.
\<close>

theorem csv_fields_counterexample:
  "length (split (split (csvContent [playExample (ascii ''a;;b'')]) newline ! 1) delimiter) = 8"
proof -
  have "csvRow (playExample (ascii ''a;;b'')) = ascii ''1;;u;;a;;b;;5;;d;;0;;Nan''"
    by (simp add: playExample_def csvRow_def versionOrEmpty_def numberToString_def
        digitsOf.simps digitUnit_def delimiter_def sanitize_eval)
  moreover have "split (csvContent [playExample (ascii ''a;;b'')]) newline ! 1
      = csvRow (playExample (ascii ''a;;b''))"
    by (simp add: csvContent_lines)
  ultimately have "split (csvContent [playExample (ascii ''a;;b'')]) newline ! 1
      = ascii ''1;;u;;a;;b;;5;;d;;0;;Nan''"
    by simp
  then show ?thesis
    by (simp add: split_def delimiter_def ascii_def)
qed


text \<open>
  C6, amended: the text written for \<open>M\<close> records splits on the newline into \<open>M + 1\<close>
  lines, for both schemas. Each line splits on the delimiter into seven fields when no
  text field of a record, once sanitized, contains the delimiter or ends with a
  semicolon.
\<close>

theorem csv_lines_and_fields:
  "length (split (csvContent reviews) newline) = length reviews + 1
   \<and> length (split (appStoreCsvContent areviews) newline) = length areviews + 1
   \<and> (list_all rowSafe reviews \<longrightarrow>
        list_all (\<lambda>l. length (split l delimiter) = 7) (split (csvContent reviews) newline))
   \<and> (list_all appStoreRowSafe areviews \<longrightarrow>
        list_all (\<lambda>l. length (split l delimiter) = 7)
          (split (appStoreCsvContent areviews) newline))"
  by (simp add: csvContent_lines appStoreCsvContent_lines csvHeader_fields
      appStoreCsvHeader_fields list_all_iff csvRow_fields appStoreCsvRow_fields)


lemma playExample_safe: "rowSafe (playExample (ascii ''good, really''))"
  by (simp add: rowSafe_def playExample_def delimiterSafe_def versionOrEmpty_def sanitize_eval)

lemma appStoreExample_safe: "appStoreRowSafe (appStoreExample (ascii ''fine; thanks''))"
  by (simp add: appStoreRowSafe_def appStoreExample_def delimiterSafe_def sanitize_eval)

theorem csv_lines_and_fields_witness:
  "list_all rowSafe [playExample (ascii ''good, really'')]
   \<and> list_all appStoreRowSafe [appStoreExample (ascii ''fine; thanks'')]
   \<and> length (split (csvContent [playExample (ascii ''good, really'')]) newline) = 2
   \<and> list_all (\<lambda>l. length (split l delimiter) = 7)
        (split (csvContent [playExample (ascii ''good, really'')]) newline)
   \<and> list_all (\<lambda>l. length (split l delimiter) = 7)
        (split (appStoreCsvContent [appStoreExample (ascii ''fine; thanks'')]) newline)"
  using csv_lines_and_fields [of "[playExample (ascii ''good, really'')]"
      "[appStoreExample (ascii ''fine; thanks'')]"]
    playExample_safe appStoreExample_safe
  by simp


text \<open>
  C9: the export writes the header and the rows joined by newlines, with no newline
  after the last row, so the statistics read \<open>M\<close> lines and report \<open>M - 1\<close> reviews
  for an export of \<open>M\<close> records.
\<close>

theorem export_stats_review_count:
  "getExportStats p (snd (exportReviewsToCSV reviews p fs))
     = Inr \<lparr>es_filePath = p, es_lines = int (length reviews),
            es_reviewCount = int (length reviews) - 1\<rparr>
   \<and> getExportStats p (snd (exportAppStoreReviewsToCSV areviews p fs))
     = Inr \<lparr>es_filePath = p, es_lines = int (length areviews),
            es_reviewCount = int (length areviews) - 1\<rparr>"
  by (simp add: getExportStats_def exportReviewsToCSV_def exportAppStoreReviewsToCSV_def
      csvContent_lines appStoreCsvContent_lines Let_def)

section \<open>Sanitizing twice\<close>

lemma whiteSpace_not_surrogate:
  "isWhiteSpace a \<Longrightarrow> \<not> isHighSurrogate a \<and> \<not> isLowSurrogate a"
  unfolding isWhiteSpace_def isHighSurrogate_def isLowSurrogate_def
  by (auto simp: word_le_nat_alt)

lemma clean_Cons:
  "\<not> isHighSurrogate a \<Longrightarrow> \<not> isLowSurrogate a \<Longrightarrow> clean Q (a # s) = (Q (unat a) \<and> clean Q s)"
  by (cases s) auto

lemma clean_high_cases:
  assumes "clean Q (a # s)" and "isHighSurrogate a"
  obtains b r where "s = b # r" "isLowSurrogate b" "Q (codePoint a b)" "clean Q r"
  using assms by (cases s) auto

lemma clean_mono: "clean Q s \<Longrightarrow> (\<And>c. Q c \<Longrightarrow> Q' c) \<Longrightarrow> clean Q' s"
  by (induction Q s rule: clean.induct) (auto split: if_splits)

lemma clean_strip:
  "clean Q s \<Longrightarrow> clean (\<lambda>c. Q c \<and> \<not> P c) (stripCodePoints P s)"
proof (induction Q s rule: clean.induct)
  case (1 Q)
  then show ?case by simp
next
  case (2 Q a)
  then show ?case by simp
next
  case (3 Q a b r)
  show ?case
  proof (cases "isHighSurrogate a")
    case True
    with 3 show ?thesis by simp
  next
    case False
    with 3 have a: "\<not> isLowSurrogate a" "Q (unat a)" and rest: "clean Q (b # r)" by simp_all
    from 3 False rest have "clean (\<lambda>c. Q c \<and> \<not> P c) (stripCodePoints P (b # r))" by simp
    with False a show ?thesis by (simp add: clean_Cons)
  qed
qed

lemma strip_clean_id:
  "clean Q s \<Longrightarrow> (\<And>c. Q c \<Longrightarrow> \<not> P c) \<Longrightarrow> stripCodePoints P s = s"
  by (induction Q s rule: clean.induct) (auto split: if_splits)

lemma stripEmojiRanges_clean:
  assumes "wellFormed s"
  shows "clean (\<lambda>c. \<not> isStripped c) (stripEmojiRanges s)"
proof -
  have "clean (\<lambda>c. (((((((((((True \<and> \<not> inRange 0x1F600 0x1F64F c)
        \<and> \<not> inRange 0x1F300 0x1F5FF c) \<and> \<not> inRange 0x1F680 0x1F6FF c)
        \<and> \<not> inRange 0x1F1E0 0x1F1FF c) \<and> \<not> inRange 0x2600 0x26FF c)
        \<and> \<not> inRange 0x2700 0x27BF c) \<and> \<not> inRange 0x2701 0x27BE c)
        \<and> \<not> inRange 0x1F900 0x1F9FF c) \<and> \<not> inRange 0x1FA70 0x1FAFF c)
        \<and> \<not> inRange 0xFE00 0xFE0F c) \<and> \<not> inRange 0x20D0 0x20FF c)
        \<and> \<not> inRange 0x200D 0x200D c) (stripEmojiRanges s)"
    unfolding stripEmojiRanges_def
    using assms [unfolded wellFormed_def]
    by (intro clean_strip)
  then show ?thesis by (rule clean_mono) (simp add: isStripped_def)
qed

lemma stripEmojiRanges_id:
  assumes "clean (\<lambda>c. \<not> isStripped c) s"
  shows "stripEmojiRanges s = s"
proof -
  have id: "stripCodePoints (inRange lo hi) s = s" if "\<And>c. inRange lo hi c \<Longrightarrow> isStripped c"
    for lo hi
    using assms by (rule strip_clean_id) (use that in blast)
  show ?thesis
    unfolding stripEmojiRanges_def
    by (simp add: id isStripped_def)
qed

lemma clean_dropWhile: "clean Q s \<Longrightarrow> clean Q (dropWhile isWhiteSpace s)"
proof (induction s)
  case Nil
  then show ?case by simp
next
  case (Cons a s)
  show ?case
  proof (cases "isWhiteSpace a")
    case True
    with whiteSpace_not_surrogate [OF True] Cons show ?thesis by (simp add: clean_Cons)
  next
    case False
    with Cons show ?thesis by simp
  qed
qed

lemma clean_snoc:
  "\<not> isHighSurrogate a \<Longrightarrow> \<not> isLowSurrogate a \<Longrightarrow>
   clean Q (s @ [a]) = (clean Q s \<and> Q (unat a))"
  by (induction Q s rule: clean.induct) auto

lemma clean_dropWhile_end: "clean Q s \<Longrightarrow> clean Q (rev (dropWhile isWhiteSpace (rev s)))"
proof (induction s rule: rev_induct)
  case Nil
  then show ?case by simp
next
  case (snoc a s)
  show ?case
  proof (cases "isWhiteSpace a")
    case True
    with whiteSpace_not_surrogate [OF True] snoc show ?thesis by (simp add: clean_snoc)
  next
    case False
    with snoc show ?thesis by simp
  qed
qed

lemma clean_trim: "clean Q s \<Longrightarrow> clean Q (trim s)"
  unfolding trim_def by (intro clean_dropWhile_end clean_dropWhile)

lemma clean_collapseSpaces:
  assumes "Q 0x20" and "clean Q s"
  shows "clean Q (collapseSpaces s)"
  using assms(2)
proof (induction "length s" arbitrary: s rule: less_induct)
  case less
  show ?case
  proof (cases s)
    case Nil
    then show ?thesis by simp
  next
    case (Cons a t)
    show ?thesis
    proof (cases "isWhiteSpace a")
      case True
      note ns = whiteSpace_not_surrogate [OF True]
      from less.prems Cons ns have "clean Q t" by (simp add: clean_Cons)
      then have "clean Q (dropWhile isWhiteSpace t)" by (rule clean_dropWhile)
      moreover have "length (dropWhile isWhiteSpace t) < length s"
        using Cons length_dropWhile_le [of isWhiteSpace t] by simp
      ultimately have "clean Q (collapseSpaces (dropWhile isWhiteSpace t))"
        by (intro less.hyps)
      moreover have "\<not> isHighSurrogate 0x20" "\<not> isLowSurrogate 0x20"
        by (simp_all add: isHighSurrogate_def isLowSurrogate_def)
      ultimately show ?thesis using True Cons assms(1) by (simp add: clean_Cons)
    next
      case False
      show ?thesis
      proof (cases "isHighSurrogate a")
        case high: True
        from less.prems Cons high obtain b r where t: "t = b # r" and b: "isLowSurrogate b"
          and q: "Q (codePoint a b)" and r: "clean Q r"
          by (auto elim: clean_high_cases)
        have "\<not> isWhiteSpace b" using b whiteSpace_not_surrogate by blast
        moreover have "clean Q (collapseSpaces r)"
          using r Cons t by (intro less.hyps) simp_all
        ultimately show ?thesis using False high b q Cons t by simp
      next
        case nothigh: False
        from less.prems Cons nothigh have a: "\<not> isLowSurrogate a" "Q (unat a)" and t: "clean Q t"
          by (cases t; simp)+
        have "clean Q (collapseSpaces t)" using t Cons by (intro less.hyps) simp_all
        with a nothigh False Cons show ?thesis by (simp add: clean_Cons)
      qed
    qed
  qed
qed

lemma spaced_Cons:
  "spaced (a # s) =
     ((isWhiteSpace a \<longrightarrow> a = 0x20 \<and> (s = [] \<or> \<not> isWhiteSpace (hd s))) \<and> spaced s)"
  by (cases s) auto

lemma collapseSpaces_head:
  "s = [] \<or> \<not> isWhiteSpace (hd s) \<Longrightarrow>
   collapseSpaces s = [] \<or> \<not> isWhiteSpace (hd (collapseSpaces s))"
  by (cases s) auto

lemma spaced_collapseSpaces: "spaced (collapseSpaces s)"
proof (induction s rule: collapseSpaces.induct)
  case 1
  then show ?case by simp
next
  case (2 u s)
  show ?case
  proof (cases "isWhiteSpace u")
    case True
    have "dropWhile isWhiteSpace s = [] \<or> \<not> isWhiteSpace (hd (dropWhile isWhiteSpace s))"
      using hd_dropWhile [of isWhiteSpace s] by blast
    from collapseSpaces_head [OF this] 2 True show ?thesis
      by (simp add: spaced_Cons)
  next
    case False
    with 2 show ?thesis by (simp add: spaced_Cons)
  qed
qed

lemma collapseSpaces_spaced: "spaced s \<Longrightarrow> collapseSpaces s = s"
proof (induction s)
  case Nil
  then show ?case by simp
next
  case (Cons a s)
  then have tail: "collapseSpaces s = s" by (simp add: spaced_Cons)
  show ?case
  proof (cases "isWhiteSpace a")
    case True
    with Cons.prems have a: "a = 0x20" and s: "s = [] \<or> \<not> isWhiteSpace (hd s)"
      by (simp_all add: spaced_Cons)
    from s have "dropWhile isWhiteSpace s = s" by (cases s) auto
    with True a tail show ?thesis by simp
  next
    case False
    with tail show ?thesis by simp
  qed
qed

lemma spaced_dropWhile: "spaced s \<Longrightarrow> spaced (dropWhile isWhiteSpace s)"
  by (induction s) (auto simp: spaced_Cons)

lemma spaced_butlast: "spaced (s @ [a]) \<Longrightarrow> spaced s"
  by (induction s rule: spaced.induct) auto

lemma spaced_dropWhile_end: "spaced s \<Longrightarrow> spaced (rev (dropWhile isWhiteSpace (rev s)))"
proof (induction s rule: rev_induct)
  case Nil
  then show ?case by simp
next
  case (snoc a s)
  from snoc.prems have "spaced s" by (rule spaced_butlast)
  with snoc show ?case by simp
qed

lemma spaced_trim: "spaced s \<Longrightarrow> spaced (trim s)"
  unfolding trim_def by (intro spaced_dropWhile_end spaced_dropWhile)

lemma trim_id:
  assumes "s \<noteq> []" and "\<not> isWhiteSpace (hd s)" and "\<not> isWhiteSpace (last s)"
  shows "trim s = s"
proof -
  from assms(1,2) have front: "dropWhile isWhiteSpace s = s" by (cases s) auto
  from assms(1,3) have "dropWhile isWhiteSpace (rev s) = rev s"
    by (cases "rev s") (auto simp: last_rev [symmetric] simp del: last_rev)
  with front show ?thesis by (simp add: trim_def)
qed

lemma trim_ends:
  "trim s = [] \<or> (\<not> isWhiteSpace (hd (trim s)) \<and> \<not> isWhiteSpace (last (trim s)))"
proof (cases "trim s = []")
  case True
  then show ?thesis by simp
next
  case False
  define d where "d = dropWhile isWhiteSpace s"
  define e where "e = dropWhile isWhiteSpace (rev d)"
  have t: "trim s = rev e" by (simp add: trim_def d_def e_def)
  with False have e: "e \<noteq> []" by simp
  then have he: "\<not> isWhiteSpace (hd e)" unfolding e_def by (rule hd_dropWhile)
  from e have d: "d \<noteq> []" by (auto simp: e_def)
  then have hd: "\<not> isWhiteSpace (hd d)" unfolding d_def by (rule hd_dropWhile)
  have "rev d = takeWhile isWhiteSpace (rev d) @ e" by (simp add: e_def)
  then have "last (rev d) = last e" using e by (metis last_appendR)
  then have "last e = hd d" using d by (simp add: last_rev)
  with hd he e show ?thesis by (simp add: t hd_rev last_rev)
qed

lemma trim_trim: "trim (trim s) = trim s"
proof (cases "trim s = []")
  case True
  have "trim [] = []" by (simp add: trim_def)
  with True show ?thesis by simp
next
  case False
  with trim_ends [of s] show ?thesis by (intro trim_id) simp_all
qed

lemma removeEmojis_fixed:
  assumes "wellFormed x"
  shows "removeEmojis (removeEmojis x) = removeEmojis x"
proof -
  define y where "y = removeEmojis x"
  have keep: "\<not> isStripped (unat (0x20 :: 16 word))"
    by (simp add: isStripped_def inRange_def)
  have "clean (\<lambda>c. \<not> isStripped c) (stripEmojiRanges x)"
    using assms by (rule stripEmojiRanges_clean)
  then have "clean (\<lambda>c. \<not> isStripped c) (collapseSpaces (stripEmojiRanges x))"
    using keep by (intro clean_collapseSpaces) simp_all
  then have "clean (\<lambda>c. \<not> isStripped c) y"
    unfolding y_def removeEmojis_def by (rule clean_trim)
  then have strip: "stripEmojiRanges y = y" by (rule stripEmojiRanges_id)
  have "spaced y"
    unfolding y_def removeEmojis_def by (intro spaced_trim spaced_collapseSpaces)
  then have collapse: "collapseSpaces y = y" by (rule collapseSpaces_spaced)
  have "trim y = y" unfolding y_def removeEmojis_def by (rule trim_trim)
  with strip collapse have "removeEmojis y = y" by (simp add: removeEmojis_def)
  then show ?thesis by (simp add: y_def)
qed

lemma trim_removeEmojis: "trim (removeEmojis x) = removeEmojis x"
  unfolding removeEmojis_def by (rule trim_trim)

lemma trim_Nil: "trim [] = []"
  by (simp add: trim_def)

lemma escapeCsvField_cases:
  "escapeCsvField (Some x) =
     (if trim x = [] then ascii ''Nan''
      else if removeEmojis x = [] then []
      else if 0x2C \<in> set (removeEmojis x) \<or> 0x22 \<in> set (removeEmojis x)
      then [0x22] @ doubleQuotes (removeEmojis x) @ [0x22]
      else removeEmojis x)"
  using removeEmojis_no_newline [of x]
  by (auto simp: escapeCsvField_def Let_def trim_removeEmojis trim_Nil)

lemma escapeCsvField_Nan: "escapeCsvField (Some (ascii ''Nan'')) = ascii ''Nan''"
  by (simp add: sanitize_eval)

lemma escapeCsvField_Null: "escapeCsvField (Some (ascii ''Null'')) = ascii ''Null''"
  by (simp add: sanitize_eval)

text \<open>
  C4, as stated, fails: the emoji U+1F600 is sanitized to the empty string, and the
  empty string to \<open>Nan\<close>.
\<close>

theorem escapeCsvField_twice_counterexample:
  "escapeCsvField (Some (escapeCsvField (Some [0xD83D, 0xDE00])))
     \<noteq> escapeCsvField (Some [0xD83D, 0xDE00])"
  by (simp add: sanitize_eval)

text \<open>
  C4, amended: sanitizing twice gives what sanitizing once gives for the absent value
  and for every string without unpaired surrogates whose sanitized value is not empty
  and has no double quote in it, that is, was not quoted.
\<close>

theorem escapeCsvField_twice:
  "escapeCsvField (Some (escapeCsvField None)) = escapeCsvField None
   \<and> (wellFormed x \<and> escapeCsvField (Some x) \<noteq> [] \<and> 0x22 \<notin> set (escapeCsvField (Some x))
        \<longrightarrow> escapeCsvField (Some (escapeCsvField (Some x))) = escapeCsvField (Some x))"
proof (intro conjI impI)
  show "escapeCsvField (Some (escapeCsvField None)) = escapeCsvField None"
    using escapeCsvField_Null by (simp add: escapeCsvField_def)
next
  assume h: "wellFormed x \<and> escapeCsvField (Some x) \<noteq> []
      \<and> 0x22 \<notin> set (escapeCsvField (Some x))"
  show "escapeCsvField (Some (escapeCsvField (Some x))) = escapeCsvField (Some x)"
  proof (cases "trim x = []")
    case True
    then have "escapeCsvField (Some x) = ascii ''Nan''" by (simp add: escapeCsvField_cases)
    then show ?thesis by (simp add: escapeCsvField_Nan)
  next
    case False
    define y where "y = removeEmojis x"
    from h False have y: "y \<noteq> []" by (auto simp: escapeCsvField_cases y_def)
    from h False y have plain: "0x2C \<notin> set y" "0x22 \<notin> set y"
      by (auto simp: escapeCsvField_cases y_def split: if_splits)
    with False y have once: "escapeCsvField (Some x) = y"
      by (simp add: escapeCsvField_cases y_def)
    have "trim y = y" unfolding y_def by (rule trim_removeEmojis)
    moreover have "removeEmojis y = y" unfolding y_def using h by (intro removeEmojis_fixed) simp
    ultimately have "escapeCsvField (Some y) = y"
      using y plain by (simp add: escapeCsvField_cases)
    with once show ?thesis by simp
  qed
qed

theorem escapeCsvField_twice_witness:
  "wellFormed (ascii ''good  app '') \<and> escapeCsvField (Some (ascii ''good  app '')) \<noteq> []
   \<and> 0x22 \<notin> set (escapeCsvField (Some (ascii ''good  app '')))
   \<and> escapeCsvField (Some (ascii ''good  app '')) = ascii ''good app''
   \<and> escapeCsvField (Some (escapeCsvField (Some (ascii ''good  app ''))))
       = escapeCsvField (Some (ascii ''good  app ''))"
proof -
  have a: "wellFormed (ascii ''good  app '')"
    by (simp add: wellFormed_def ascii_def isHighSurrogate_def isLowSurrogate_def)
  have v: "escapeCsvField (Some (ascii ''good  app '')) = ascii ''good app''"
    by (simp add: sanitize_eval)
  have b: "escapeCsvField (Some (ascii ''good  app '')) \<noteq> []"
    and c: "0x22 \<notin> set (escapeCsvField (Some (ascii ''good  app '')))"
    unfolding v by (simp_all add: ascii_def)
  note T = escapeCsvField_twice [of "ascii ''good  app ''", THEN conjunct2, THEN mp,
      OF conjI [OF a conjI [OF b c]]]
  show ?thesis by (intro conjI a b c v T)
qed

text \<open>
  The two conditions are needed. A quoted value is quoted again. Unpaired surrogates
  around an emoji pair up once the emoji between them is removed, so a second pass
  removes more.
\<close>

lemma quoted_value_not_fixed:
  "escapeCsvField (Some (ascii ''a,b'')) = [0x22] @ ascii ''a,b'' @ [0x22]
   \<and> escapeCsvField (Some ([0x22] @ ascii ''a,b'' @ [0x22]))
       = [0x22, 0x22, 0x22] @ ascii ''a,b'' @ [0x22, 0x22, 0x22]"
  by (simp add: sanitize_eval)

lemma lone_surrogates_not_fixed:
  "\<not> wellFormed [0xD83D, 0xD83D, 0xDE00, 0xDE00]
   \<and> escapeCsvField (Some [0xD83D, 0xD83D, 0xDE00, 0xDE00]) = [0xD83D, 0xDE00]
   \<and> escapeCsvField (Some [0xD83D, 0xDE00]) = []"
  by (simp add: sanitize_eval wellFormed_def)

section \<open>Properties of the aggregators\<close>

lemma AppStoreService_mapReviewData_id [simp]: "AppStoreService_mapReviewData r = r"
  by (cases r) (simp add: AppStoreService_mapReviewData_def)

lemma map_AppStoreService_mapReviewData [simp]: "map AppStoreService_mapReviewData rs = rs"
  by (induction rs) simp_all

lemma pagesOf_append: "pagesOf (l @ l') = pagesOf l @ pagesOf l'"
  by (induction l rule: pagesOf.induct) simp_all

lemma totalPagesOf_guard:
  assumes "numLess (int (50 * k)) totalReviews"
  shows "numLessEq (int k + 1) (totalPagesOf totalReviews)"
proof (cases totalReviews)
  case (Finite n)
  with assms have "int (50 * k) < n" by simp
  then have "int k + 1 \<le> - ((- n) div 50)" by linarith
  with Finite show ?thesis by (simp add: reviewsPerPage_def)
next
  case Infinity
  then show ?thesis by simp
qed

lemma paginationBody_Inr:
  assumes "up (ustate w) (appStoreRequest options page) = (Inr pageResult, s')"
  shows "paginationBody up options totalReviews page allReviews w =
     (let w1 = w\<lparr>ustate := s',
                  fetchLog := fetchLog w @ [(appStoreRequest options page, Inr pageResult)]\<rparr>
      in if pageResult = [] then (Break allReviews, w1)
         else if numGreaterEq (int (length (allReviews @ pageResult))) totalReviews
         then (Break (splice totalReviews (allReviews @ pageResult)), w1)
         else if length pageResult < 50 then (Break (allReviews @ pageResult), w1)
         else (Next (allReviews @ pageResult), setTimeout 1000 w1))"
  using assms
  by (simp add: paginationBody_def AppStoreService_getReviews_def callUpstream_def
      appStoreRequest_def Let_def reviewsPerPage_def)

lemma paginationBody_Inl:
  assumes "up (ustate w) (appStoreRequest options page) = (Inl e, s')"
  shows "paginationBody up options totalReviews page allReviews w =
     (Next allReviews,
      consoleError (ascii ''Error fetching App Store page '' @ numberToString page @ ascii '':'')
        (consoleError (ascii ''Error fetching App Store reviews:'')
          (w\<lparr>ustate := s',
             fetchLog := fetchLog w @ [(appStoreRequest options page, Inl e)]\<rparr>)))"
  using assms
  by (simp add: paginationBody_def AppStoreService_getReviews_def callUpstream_def
      appStoreRequest_def Let_def)

lemma paginationBody_paged:
  "paginationBody (pagedSource src) options totalReviews page allReviews w =
     (let pageResult = take 50 (drop (50 * nat (page - 1)) src);
          w1 = w\<lparr>ustate := ustate w,
                  fetchLog := fetchLog w @ [(appStoreRequest options page, Inr pageResult)]\<rparr>
      in if pageResult = [] then (Break allReviews, w1)
         else if numGreaterEq (int (length (allReviews @ pageResult))) totalReviews
         then (Break (splice totalReviews (allReviews @ pageResult)), w1)
         else if length pageResult < 50 then (Break (allReviews @ pageResult), w1)
         else (Next (allReviews @ pageResult), setTimeout 1000 w1))"
proof -
  have "pagedSource src (ustate w) (appStoreRequest options page)
      = (Inr (take 50 (drop (50 * nat (page - 1)) src)), ustate w)"
    by (simp add: pagedSource_def appStoreRequest_def)
  from paginationBody_Inr [of "pagedSource src" w options page _ "ustate w", OF this]
  show ?thesis by (simp only: Let_def)
qed

lemma received_simps [simp]:
  "received (setTimeout ms w) = received w"
  "received (consoleError msg w) = received w"
  "received (w\<lparr>ustate := s, fetchLog := fetchLog w @ [(rq, Inr p)]\<rparr>) = received w @ p"
  "received (w\<lparr>ustate := s, fetchLog := fetchLog w @ [(rq, Inl e)]\<rparr>) = received w"
  by (simp_all add: received_def setTimeout_def consoleError_def pagesOf_append)

lemma fetchLog_simps [simp]:
  "fetchLog (setTimeout ms w) = fetchLog w"
  "fetchLog (consoleError msg w) = fetchLog w"
  by (simp_all add: setTimeout_def consoleError_def)

lemma paginationBody_cases:
  obtains (failed) e s' where
      "up (ustate w) (appStoreRequest options page) = (Inl e, s')"
      "paginationBody up options totalReviews page allReviews w =
         (Next allReviews,
          consoleError (ascii ''Error fetching App Store page '' @ numberToString page @ ascii '':'')
            (consoleError (ascii ''Error fetching App Store reviews:'')
              (w\<lparr>ustate := s',
                 fetchLog := fetchLog w @ [(appStoreRequest options page, Inl e)]\<rparr>)))"
  | (fetched) pageResult s' where
      "up (ustate w) (appStoreRequest options page) = (Inr pageResult, s')"
      "paginationBody up options totalReviews page allReviews w =
         (if pageResult = []
          then (Break allReviews,
                w\<lparr>ustate := s',
                  fetchLog := fetchLog w @ [(appStoreRequest options page, Inr pageResult)]\<rparr>)
          else if numGreaterEq (int (length (allReviews @ pageResult))) totalReviews
          then (Break (splice totalReviews (allReviews @ pageResult)),
                w\<lparr>ustate := s',
                  fetchLog := fetchLog w @ [(appStoreRequest options page, Inr pageResult)]\<rparr>)
          else if length pageResult < 50
          then (Break (allReviews @ pageResult),
                w\<lparr>ustate := s',
                  fetchLog := fetchLog w @ [(appStoreRequest options page, Inr pageResult)]\<rparr>)
          else (Next (allReviews @ pageResult),
                setTimeout 1000
                 (w\<lparr>ustate := s',
                    fetchLog := fetchLog w @ [(appStoreRequest options page, Inr pageResult)]\<rparr>)))"
proof (cases "up (ustate w) (appStoreRequest options page)")
  case (Pair res s')
  show ?thesis
  proof (cases res)
    case (Inl e)
    with Pair have "up (ustate w) (appStoreRequest options page) = (Inl e, s')" by simp
    from this paginationBody_Inl [of up w options page e s', OF this] show ?thesis by (rule failed)
  next
    case (Inr pageResult)
    with Pair have "up (ustate w) (appStoreRequest options page) = (Inr pageResult, s')" by simp
    from this paginationBody_Inr [of up w options page pageResult s', OF this] show ?thesis unfolding Let_def by (rule fetched)
  qed
qed

lemma paginationBody_fetchLog:
  "length (fetchLog (snd (paginationBody up options totalReviews page allReviews w)))
     = Suc (length (fetchLog w))"
  by (cases rule: paginationBody_cases [of up w options page totalReviews allReviews]) simp_all

lemma paginationLoop_step:
  "numLessEq page totalPages \<Longrightarrow>
   paginationLoop up options totalReviews totalPages page allReviews w
     = (case paginationBody up options totalReviews page allReviews w of
          (Break final, w1) \<Rightarrow> Some (final, w1)
        | (Next pushed, w1) \<Rightarrow>
            paginationLoop up options totalReviews totalPages (page + 1) pushed w1)"
  by (simp add: paginationLoop.simps [of _ _ _ _ page])

lemma paginationLoop_exit:
  "\<not> numLessEq page totalPages \<Longrightarrow>
   paginationLoop up options totalReviews totalPages page allReviews w = Some (allReviews, w)"
  by (simp add: paginationLoop.simps [of _ _ _ _ page])

lemma paginationLoop_returns:
  "\<exists>final w'. paginationLoop up options totalReviews (Finite totalPages) page allReviews w
       = Some (final, w')
     \<and> length (fetchLog w') \<le> length (fetchLog w) + nat (totalPages + 1 - page)"
proof (induction "nat (totalPages + 1 - page)" arbitrary: page allReviews w rule: less_induct)
  case less
  show ?case
  proof (cases "page \<le> totalPages")
    case False
    then have "paginationLoop up options totalReviews (Finite totalPages) page allReviews w
        = Some (allReviews, w)"
      by (simp add: paginationLoop_exit)
    then show ?thesis by simp
  next
    case True
    obtain it w1 where body: "paginationBody up options totalReviews page allReviews w = (it, w1)"
      by (cases "paginationBody up options totalReviews page allReviews w")
    have log: "length (fetchLog w1) = Suc (length (fetchLog w))"
      using paginationBody_fetchLog [of up options totalReviews page allReviews w] body by simp
    show ?thesis
    proof (cases it)
      case (Break final)
      with True body have "paginationLoop up options totalReviews (Finite totalPages) page
          allReviews w = Some (final, w1)"
        by (simp add: paginationLoop_step)
      moreover have "length (fetchLog w1) \<le> length (fetchLog w) + nat (totalPages + 1 - page)"
        using True log by simp
      ultimately show ?thesis by blast
    next
      case (Next pushed)
      have "nat (totalPages + 1 - (page + 1)) < nat (totalPages + 1 - page)"
        using True by simp
      from less [OF this, of pushed w1]
      obtain final w' where run: "paginationLoop up options totalReviews (Finite totalPages)
            (page + 1) pushed w1 = Some (final, w')"
        and bound: "length (fetchLog w') \<le> length (fetchLog w1) + nat (totalPages + 1 - (page + 1))"
        by blast
      from True body Next run
      have "paginationLoop up options totalReviews (Finite totalPages) page allReviews w
          = Some (final, w')"
        by (simp add: paginationLoop_step)
      moreover have "length (fetchLog w') \<le> length (fetchLog w) + nat (totalPages + 1 - page)"
        using True log bound by simp
      ultimately show ?thesis by blast
    qed
  qed
qed


lemma numGreaterEq_iff: "numGreaterEq a t = (\<not> numLess a t)"
  by (cases t) auto

lemma splice_all: "numLess (int (length xs)) t \<Longrightarrow> splice t xs = xs"
  by (cases t) auto

lemma splice_take:
  assumes "numLess a t" and "0 \<le> a" and "numGreaterEq (int m) t"
  shows "splice t (take m xs) = splice t xs"
proof (cases t)
  case (Finite n)
  with assms have "0 \<le> n" "nat n \<le> m" by auto
  with Finite show ?thesis by (simp add: min_def)
next
  case Infinity
  with assms show ?thesis by simp
qed

lemma splice_Finite: "0 \<le> n \<Longrightarrow> splice (Finite n) xs = take (nat n) xs"
  by simp

lemma paginationLoop_paged:
  assumes "1 \<le> page" and "allReviews = take (50 * nat (page - 1)) src"
    and "50 * nat (page - 1) \<le> length src"
    and "numLess (int (50 * nat (page - 1))) totalReviews"
  shows "\<exists>w'. paginationLoop (pagedSource src) options totalReviews
            (totalPagesOf totalReviews) page allReviews w = Some (splice totalReviews src, w')"
  using assms
proof (induction "length src - 50 * nat (page - 1)" arbitrary: page allReviews w
    rule: less_induct)
  case less
  from less.prems(1) obtain k where page: "page = int k + 1"
    by (metis add.commute nonneg_int_cases diff_ge_0_iff_ge diff_add_cancel)
  have k_def: "nat (page - 1) = k" by (simp add: page)
  have small: "numLess (int (50 * k)) totalReviews" using less.prems(4) by (simp only: k_def)
  have guard: "numLessEq page (totalPagesOf totalReviews)"
    using totalPagesOf_guard [OF small] by (simp only: page)
  define pageResult where "pageResult = take 50 (drop (50 * k) src)"
  have acc: "allReviews = take (50 * k) src" using less.prems(2) by (simp only: k_def)
  have pushed: "allReviews @ pageResult = take (50 * k + 50) src"
    by (simp add: acc pageResult_def take_add)
  have lenk: "50 * k \<le> length src" using less.prems(3) by (simp only: k_def)
  define w1 where "w1 = w\<lparr>ustate := ustate w,
      fetchLog := fetchLog w @ [(appStoreRequest options page, Inr pageResult)]\<rparr>"
  have body: "paginationBody (pagedSource src) options totalReviews page allReviews w =
      (if pageResult = [] then (Break allReviews, w1)
       else if numGreaterEq (int (length (allReviews @ pageResult))) totalReviews
       then (Break (splice totalReviews (allReviews @ pageResult)), w1)
       else if length pageResult < 50 then (Break (allReviews @ pageResult), w1)
       else (Next (allReviews @ pageResult), setTimeout 1000 w1))"
    unfolding paginationBody_paged Let_def k_def pageResult_def w1_def ..
  note loop = paginationLoop_step [OF guard, of "pagedSource src" options totalReviews allReviews w]
  show ?case
  proof (cases "pageResult = []")
    case True
    then have "length src = 50 * k" using lenk by (simp add: pageResult_def)
    then have all: "allReviews = src" by (simp add: acc)
    with small \<open>length src = 50 * k\<close> have "splice totalReviews src = src"
      by (intro splice_all) simp
    moreover have "paginationLoop (pagedSource src) options totalReviews
        (totalPagesOf totalReviews) page allReviews w = Some (allReviews, w1)"
      using True by (simp add: loop body)
    ultimately show ?thesis using all by simp
  next
    case nonempty: False
    show ?thesis
    proof (cases "numGreaterEq (int (length (allReviews @ pageResult))) totalReviews")
      case True
      then have "numGreaterEq (int (50 * k + 50)) totalReviews"
        by (cases totalReviews) (auto simp: pushed)
      from splice_take [OF small _ this, of src]
      have "splice totalReviews (allReviews @ pageResult) = splice totalReviews src"
        by (simp add: pushed)
      moreover have "paginationLoop (pagedSource src) options totalReviews
          (totalPagesOf totalReviews) page allReviews w
          = Some (splice totalReviews (allReviews @ pageResult), w1)"
        using True nonempty
        by (simp only: loop body if_True if_False prod.case iteration.case)
      ultimately show ?thesis by simp
    next
      case notyet: False
      show ?thesis
      proof (cases "length pageResult < 50")
        case True
        then have "length src < 50 * k + 50" by (auto simp: pageResult_def)
        then have whole: "take (50 * k + 50) src = src" by simp
        from notyet have "numLess (int (length src)) totalReviews"
          by (simp only: numGreaterEq_iff pushed whole not_not)
        then have "splice totalReviews src = src" by (rule splice_all)
        moreover have "paginationLoop (pagedSource src) options totalReviews
            (totalPagesOf totalReviews) page allReviews w = Some (allReviews @ pageResult, w1)"
          using True notyet nonempty
          by (simp only: loop body if_True if_False prod.case iteration.case)
        ultimately show ?thesis using whole by (simp only: pushed) blast
      next
        case full: False
        then have len: "50 * k + 50 \<le> length src" by (auto simp: pageResult_def)
        from notyet have small': "numLess (int (50 * k + 50)) totalReviews"
          using len by (simp add: numGreaterEq_iff pushed)
        have step: "paginationLoop (pagedSource src) options totalReviews
            (totalPagesOf totalReviews) page allReviews w
          = paginationLoop (pagedSource src) options totalReviews
            (totalPagesOf totalReviews) (page + 1) (allReviews @ pageResult)
            (setTimeout 1000 w1)"
          using full notyet nonempty
          by (simp only: loop body if_True if_False prod.case iteration.case)
        have k1: "nat (page + 1 - 1) = k + 1" by (simp add: page)
        have "\<exists>w'. paginationLoop (pagedSource src) options totalReviews
            (totalPagesOf totalReviews) (page + 1) (allReviews @ pageResult)
            (setTimeout 1000 w1) = Some (splice totalReviews src, w')"
        proof (rule less.hyps)
          show "length src - 50 * nat (page + 1 - 1) < length src - 50 * nat (page - 1)"
            unfolding k1 k_def using len by simp
          show "1 \<le> page + 1" using less.prems(1) by simp
          show "allReviews @ pageResult = take (50 * nat (page + 1 - 1)) src"
            unfolding k1 pushed by (simp add: add.commute)
          show "50 * nat (page + 1 - 1) \<le> length src" unfolding k1 using len by simp
          have "int (50 * (k + 1)) = int (50 * k + 50)" by simp
          then show "numLess (int (50 * nat (page + 1 - 1))) totalReviews"
            unfolding k1 using small' by (simp only:)
        qed
        with step show ?thesis by simp
      qed
    qed
  qed
qed

lemma paginationLoop_received:
  assumes "paginationLoop up options totalReviews totalPages page allReviews w = Some r"
  shows "allReviews = received w \<longrightarrow> numLess (int (length allReviews)) totalReviews \<longrightarrow>
     fst r = splice totalReviews (received (snd r))"
proof (rule paginationLoop.raw_induct [where P = "\<lambda>up options totalReviews totalPages page
      allReviews w r. allReviews = received w \<longrightarrow>
        numLess (int (length allReviews)) totalReviews \<longrightarrow>
        fst r = splice totalReviews (received (snd r))", OF _ assms])
  fix loop :: "'a appStoreUpstream \<Rightarrow> AppStoreReviewOptions \<Rightarrow> jsnumber \<Rightarrow> jsnumber \<Rightarrow> int
      \<Rightarrow> AppStoreReviewData list \<Rightarrow> 'a appStoreWorld
      \<Rightarrow> (AppStoreReviewData list \<times> 'a appStoreWorld) option"
    and up options totalReviews totalPages page allReviews w r
  assume IH: "\<And>up options totalReviews totalPages page allReviews w r.
      loop up options totalReviews totalPages page allReviews w = Some r \<Longrightarrow>
      allReviews = received w \<longrightarrow> numLess (int (length allReviews)) totalReviews \<longrightarrow>
      fst r = splice totalReviews (received (snd r))"
    and step: "(if numLessEq page totalPages
        then case paginationBody up options totalReviews page allReviews w of
               (Break final, w1) \<Rightarrow> Some (final, w1)
             | (Next pushed, w1) \<Rightarrow>
                 loop up options totalReviews totalPages (page + 1) pushed w1
        else Some (allReviews, w)) = Some r"
  show "allReviews = received w \<longrightarrow> numLess (int (length allReviews)) totalReviews \<longrightarrow>
      fst r = splice totalReviews (received (snd r))"
  proof (intro impI)
    assume acc: "allReviews = received w"
      and small: "numLess (int (length allReviews)) totalReviews"
    show "fst r = splice totalReviews (received (snd r))"
    proof (cases "numLessEq page totalPages")
      case False
      with step have "r = (allReviews, w)" by simp
      then show ?thesis using acc small splice_all [OF small] by simp
    next
      case True
      show ?thesis
      proof (cases rule: paginationBody_cases [of up w options page totalReviews allReviews])
        case (failed e s')
        from step True failed(2) obtain w1 where
          run: "loop up options totalReviews totalPages (page + 1) allReviews w1 = Some r"
          and w1: "received w1 = received w"
          by simp
        from IH [OF run] acc small w1 show ?thesis by simp
      next
        case (fetched pageResult s')
        define w1 where "w1 = w\<lparr>ustate := s',
            fetchLog := fetchLog w @ [(appStoreRequest options page, Inr pageResult)]\<rparr>"
        have rec1: "received w1 = allReviews @ pageResult"
          by (simp add: w1_def acc)
        note body = fetched(2) [folded w1_def]
        show ?thesis
        proof (cases "pageResult = []")
          case empty: True
          with True body step have "r = (allReviews, w1)" by simp
          then show ?thesis using rec1 empty splice_all [OF small] by simp
        next
          case nonempty: False
          show ?thesis
          proof (cases "numGreaterEq (int (length (allReviews @ pageResult))) totalReviews")
            case reached: True
            with True body step nonempty
            have "r = (splice totalReviews (allReviews @ pageResult), w1)" by simp
            then show ?thesis using rec1 by simp
          next
            case notyet: False
            then have small': "numLess (int (length (allReviews @ pageResult))) totalReviews"
              by (simp only: numGreaterEq_iff not_not)
            show ?thesis
            proof (cases "length pageResult < 50")
              case short: True
              with True body step nonempty notyet
              have "r = (allReviews @ pageResult, w1)" by simp
              then show ?thesis using rec1 splice_all [OF small'] by simp
            next
              case full: False
              with True body step nonempty notyet
              have run: "loop up options totalReviews totalPages (page + 1)
                  (allReviews @ pageResult) (setTimeout 1000 w1) = Some r"
                by simp
              from IH [OF run] rec1 small' show ?thesis by simp
            qed
          qed
        qed
      qed
    qed
  qed
qed

lemma getReviewsWithPagination_Some:
  assumes "paginationLoop up options totalReviews (totalPagesOf totalReviews) 1 [] w
      = Some (allReviews, w1)"
  shows "AppStoreService_getReviewsWithPagination up options totalReviews w
     = Some (\<lparr>asr_reviews = allReviews,
               asr_hasMore = numEq (int (length allReviews)) totalReviews,
               asr_totalCount = length allReviews\<rparr>, w1)"
  using assms by (simp add: AppStoreService_getReviewsWithPagination_def)

lemma getReviewsWithPagination_loop:
  assumes "AppStoreService_getReviewsWithPagination up options totalReviews w = Some (r, w1)"
  shows "paginationLoop up options totalReviews (totalPagesOf totalReviews) 1 [] w
      = Some (asr_reviews r, w1)
    \<and> asr_hasMore r = numEq (int (length (asr_reviews r))) totalReviews"
  using assms
  by (auto simp: AppStoreService_getReviewsWithPagination_def split: option.splits)

lemma getReviewsWithPagination_paged:
  assumes "numLess 0 totalReviews"
  shows "\<exists>w'. AppStoreService_getReviewsWithPagination (pagedSource src) options totalReviews w
     = Some (\<lparr>asr_reviews = splice totalReviews src,
               asr_hasMore = numEq (int (length (splice totalReviews src))) totalReviews,
               asr_totalCount = length (splice totalReviews src)\<rparr>, w')"
proof -
  have "\<exists>w'. paginationLoop (pagedSource src) options totalReviews
            (totalPagesOf totalReviews) 1 [] w = Some (splice totalReviews src, w')"
    using assms by (intro paginationLoop_paged) simp_all
  then obtain w' where "paginationLoop (pagedSource src) options totalReviews
            (totalPagesOf totalReviews) 1 [] w = Some (splice totalReviews src, w')" ..
  from getReviewsWithPagination_Some [OF this] show ?thesis ..
qed

lemma getReviewsWithPagination_returns:
  "\<exists>r w'. AppStoreService_getReviewsWithPagination up options (Finite n) w = Some (r, w')
     \<and> asr_hasMore r = (int (length (asr_reviews r)) = n)
     \<and> length (fetchLog w') \<le> length (fetchLog w) + nat (- ((- n) div 50))"
proof -
  from paginationLoop_returns [of up options "Finite n" "- ((- n) div 50)" 1 "[]" w]
  obtain final w' where run: "paginationLoop up options (Finite n)
        (Finite (- ((- n) div 50))) 1 [] w = Some (final, w')"
    and bound: "length (fetchLog w') \<le> length (fetchLog w) + nat (- ((- n) div 50) + 1 - 1)"
    by blast
  from run have "paginationLoop up options (Finite n) (totalPagesOf (Finite n)) 1 [] w
      = Some (final, w')"
    by (simp add: reviewsPerPage_def)
  from getReviewsWithPagination_Some [OF this] bound show ?thesis by simp
qed

lemma received_newWorld [simp]: "received (newWorld s) = []"
  by (simp add: received_def newWorld_def)

lemma getReviewsWithPagination_received:
  assumes "AppStoreService_getReviewsWithPagination up options totalReviews (newWorld s)
      = Some (r, w')"
    and "numLess 0 totalReviews"
  shows "asr_reviews r = splice totalReviews (received w')"
proof -
  from getReviewsWithPagination_loop [OF assms(1)]
  have "paginationLoop up options totalReviews (totalPagesOf totalReviews) 1 [] (newWorld s)
      = Some (asr_reviews r, w')" by simp
  from paginationLoop_received [OF this] assms(2) show ?thesis by simp
qed



lemma ReviewService_mapReviewData_id [simp]: "ReviewService_mapReviewData r = r"
  by (cases r) (simp add: ReviewService_mapReviewData_def)

lemma map_ReviewService_mapReviewData [simp]: "map ReviewService_mapReviewData rs = rs"
  by (induction rs) simp_all

lemma fetchBody_Inl:
  assumes "up (ustate w) (gplayRequest options num st) = (Inl e, s')"
  shows "fetchBody up options num st w =
     (Inl (Error (ascii ''Failed to fetch reviews batch: '' @ errorMessage e)),
      consoleError (ascii ''Error fetching single batch:'')
        (w\<lparr>ustate := s', fetchLog := fetchLog w @ [(gplayRequest options num st, Inl e)]\<rparr>))"
  using assms
  by (cases "truthy (st_nextToken st)")
     (simp_all add: fetchBody_def fetchSingleBatch_def callUpstream_def gplayRequest_def Let_def)

lemma fetchBody_Inr:
  assumes "up (ustate w) (gplayRequest options num st) = (Inr result, s')"
  shows "fetchBody up options num st w =
     (if gp_data result = []
      then (Inr (Break st),
            w\<lparr>ustate := s', fetchLog := fetchLog w @ [(gplayRequest options num st, Inr result)]\<rparr>)
      else if \<not> truthy (gp_resultToken result)
      then (Inr (Break \<lparr>st_allReviews = st_allReviews st @ gp_data result,
                        st_nextToken = gp_resultToken result,
                        st_fetchedCount = st_fetchedCount st + int (length (gp_data result))\<rparr>),
            w\<lparr>ustate := s', fetchLog := fetchLog w @ [(gplayRequest options num st, Inr result)]\<rparr>)
      else (Inr (Next \<lparr>st_allReviews = st_allReviews st @ gp_data result,
                       st_nextToken = gp_resultToken result,
                       st_fetchedCount = st_fetchedCount st + int (length (gp_data result))\<rparr>),
            setTimeout 500
              (w\<lparr>ustate := s',
                 fetchLog := fetchLog w @ [(gplayRequest options num st, Inr result)]\<rparr>)))"
  using assms
  by (cases "truthy (st_nextToken st)")
     (simp_all add: fetchBody_def fetchSingleBatch_def callUpstream_def gplayRequest_def Let_def)

lemma fetchBody_cases:
  obtains (failed) e s' where
      "up (ustate w) (gplayRequest options num st) = (Inl e, s')"
      "fetchBody up options num st w =
         (Inl (Error (ascii ''Failed to fetch reviews batch: '' @ errorMessage e)),
          consoleError (ascii ''Error fetching single batch:'')
            (w\<lparr>ustate := s', fetchLog := fetchLog w @ [(gplayRequest options num st, Inl e)]\<rparr>))"
  | (fetched) result s' where
      "up (ustate w) (gplayRequest options num st) = (Inr result, s')"
      "fetchBody up options num st w =
     (if gp_data result = []
      then (Inr (Break st),
            w\<lparr>ustate := s', fetchLog := fetchLog w @ [(gplayRequest options num st, Inr result)]\<rparr>)
      else if \<not> truthy (gp_resultToken result)
      then (Inr (Break \<lparr>st_allReviews = st_allReviews st @ gp_data result,
                        st_nextToken = gp_resultToken result,
                        st_fetchedCount = st_fetchedCount st + int (length (gp_data result))\<rparr>),
            w\<lparr>ustate := s', fetchLog := fetchLog w @ [(gplayRequest options num st, Inr result)]\<rparr>)
      else (Inr (Next \<lparr>st_allReviews = st_allReviews st @ gp_data result,
                       st_nextToken = gp_resultToken result,
                       st_fetchedCount = st_fetchedCount st + int (length (gp_data result))\<rparr>),
            setTimeout 500
              (w\<lparr>ustate := s',
                 fetchLog := fetchLog w @ [(gplayRequest options num st, Inr result)]\<rparr>)))"
proof (cases "up (ustate w) (gplayRequest options num st)")
  case (Pair res s')
  show ?thesis
  proof (cases res)
    case (Inl e)
    with Pair have "up (ustate w) (gplayRequest options num st) = (Inl e, s')" by simp
    from this fetchBody_Inl [of up w options num st e s', OF this] show ?thesis by (rule failed)
  next
    case (Inr result)
    with Pair have "up (ustate w) (gplayRequest options num st) = (Inr result, s')" by simp
    from this fetchBody_Inr [of up w options num st result s', OF this] show ?thesis by (rule fetched)
  qed
qed


lemma fetchLoop_unfold:
  "numLess (st_fetchedCount st) num \<Longrightarrow>
   fetchLoop up options num st w =
     (case fetchBody up options num st w of
        (Inl e, w1) \<Rightarrow> Some (Inl e, w1)
      | (Inr (Break st'), w1) \<Rightarrow> Some (Inr st', w1)
      | (Inr (Next st'), w1) \<Rightarrow> fetchLoop up options num st' w1)"
  by (simp add: fetchLoop.simps [of up options num st w])

lemma fetchLoop_exit:
  "\<not> numLess (st_fetchedCount st) num \<Longrightarrow> fetchLoop up options num st w = Some (Inr st, w)"
  by (simp add: fetchLoop.simps [of up options num st w])


lemma receivedPlay_simps [simp]:
  "receivedPlay (setTimeout ms w) = receivedPlay w"
  "receivedPlay (consoleError msg w) = receivedPlay w"
  "receivedPlay (w\<lparr>ustate := s, fetchLog := fetchLog w @ [(rq, Inr p)]\<rparr>)
     = receivedPlay w @ gp_data p"
  "receivedPlay (w\<lparr>ustate := s, fetchLog := fetchLog w @ [(rq, Inl e)]\<rparr>) = receivedPlay w"
  by (simp_all add: receivedPlay_def setTimeout_def consoleError_def pagesOf_append)

lemma fetchLoop_received:
  assumes "fetchLoop up options num st w = Some r"
  shows "st_allReviews st = receivedPlay w \<longrightarrow>
     (case fst r of Inl e \<Rightarrow> True | Inr st' \<Rightarrow> st_allReviews st' = receivedPlay (snd r))"
proof (rule fetchLoop.raw_induct [where P = "\<lambda>up options num st w r.
      st_allReviews st = receivedPlay w \<longrightarrow>
      (case fst r of Inl e \<Rightarrow> True | Inr st' \<Rightarrow> st_allReviews st' = receivedPlay (snd r))",
      OF _ assms])
  fix loop :: "'a playUpstream \<Rightarrow> ReviewOptions \<Rightarrow> jsnumber \<Rightarrow> FetchState \<Rightarrow> 'a playWorld
      \<Rightarrow> ((error + FetchState) \<times> 'a playWorld) option"
    and up options num st w r
  assume IH: "\<And>up options num st w r. loop up options num st w = Some r \<Longrightarrow>
      st_allReviews st = receivedPlay w \<longrightarrow>
      (case fst r of Inl e \<Rightarrow> True | Inr st' \<Rightarrow> st_allReviews st' = receivedPlay (snd r))"
    and step: "(if numLess (st_fetchedCount st) num
        then case fetchBody up options num st w of
               (Inl e, w1) \<Rightarrow> Some (Inl e, w1)
             | (Inr (Break st'), w1) \<Rightarrow> Some (Inr st', w1)
             | (Inr (Next st'), w1) \<Rightarrow> loop up options num st' w1
        else Some (Inr st, w)) = Some r"
  show "st_allReviews st = receivedPlay w \<longrightarrow>
      (case fst r of Inl e \<Rightarrow> True | Inr st' \<Rightarrow> st_allReviews st' = receivedPlay (snd r))"
  proof
    assume acc: "st_allReviews st = receivedPlay w"
    show "case fst r of Inl e \<Rightarrow> True | Inr st' \<Rightarrow> st_allReviews st' = receivedPlay (snd r)"
    proof (cases "numLess (st_fetchedCount st) num")
      case False
      with step have "r = (Inr st, w)" by simp
      with acc show ?thesis by simp
    next
      case True
      show ?thesis
      proof (cases rule: fetchBody_cases [of up w options num st])
        case (failed e s')
        with True step show ?thesis by auto
      next
        case (fetched result s')
        define w1 where "w1 = w\<lparr>ustate := s',
            fetchLog := fetchLog w @ [(gplayRequest options num st, Inr result)]\<rparr>"
        define st1 where "st1 = \<lparr>st_allReviews = st_allReviews st @ gp_data result,
            st_nextToken = gp_resultToken result,
            st_fetchedCount = st_fetchedCount st + int (length (gp_data result))\<rparr>"
        have rec1: "receivedPlay w1 = st_allReviews st @ gp_data result"
          by (simp add: w1_def acc)
        note body = fetched(2) [folded w1_def st1_def]
        show ?thesis
        proof (cases "gp_data result = []")
          case empty: True
          with True body step have "r = (Inr st, w1)" by simp
          with rec1 empty show ?thesis by simp
        next
          case nonempty: False
          show ?thesis
          proof (cases "truthy (gp_resultToken result)")
            case False
            with True body step nonempty have "r = (Inr st1, w1)" by simp
            with rec1 show ?thesis by (simp add: st1_def)
          next
            case more: True
            with True body step nonempty
            have run: "loop up options num st1 (setTimeout 500 w1) = Some r" by simp
            have "st_allReviews st1 = receivedPlay (setTimeout 500 w1)"
              by (simp add: st1_def rec1)
            with IH [OF run] show ?thesis by simp
          qed
        qed
      qed
    qed
  qed
qed

text \<open>
  With the target \<open>Infinity\<close> the loop never ends on an upstream that answers every
  call with a batch that is not empty and a token.
\<close>

lemma fetchLoop_never_returns:
  assumes "\<forall>s rq. \<exists>result s'. up s rq = (Inr result, s') \<and> gp_data result \<noteq> []
      \<and> truthy (gp_resultToken result)"
  shows "fetchLoop up options Infinity st w = None"
proof (cases "fetchLoop up options Infinity st w")
  case None
  then show ?thesis .
next
  case (Some r)
  have "\<not> (Infinity = Infinity \<and> (\<forall>s rq. \<exists>result s'. up s rq = (Inr result, s')
      \<and> gp_data result \<noteq> [] \<and> truthy (gp_resultToken result)))"
  proof (rule fetchLoop.raw_induct [where P = "\<lambda>up options num st w r.
        \<not> (num = Infinity \<and> (\<forall>s rq. \<exists>result s'. up s rq = (Inr result, s')
          \<and> gp_data result \<noteq> [] \<and> truthy (gp_resultToken result)))", OF _ Some])
    fix loop :: "'a playUpstream \<Rightarrow> ReviewOptions \<Rightarrow> jsnumber \<Rightarrow> FetchState \<Rightarrow> 'a playWorld
        \<Rightarrow> ((error + FetchState) \<times> 'a playWorld) option"
      and up options num st w r
    assume IH: "\<And>up options num st w r. loop up options num st w = Some r \<Longrightarrow>
        \<not> (num = Infinity \<and> (\<forall>s rq. \<exists>result s'. up s rq = (Inr result, s')
          \<and> gp_data result \<noteq> [] \<and> truthy (gp_resultToken result)))"
      and step: "(if numLess (st_fetchedCount st) num
          then case fetchBody up options num st w of
                 (Inl e, w1) \<Rightarrow> Some (Inl e, w1)
               | (Inr (Break st'), w1) \<Rightarrow> Some (Inr st', w1)
               | (Inr (Next st'), w1) \<Rightarrow> loop up options num st' w1
          else Some (Inr st, w)) = Some r"
    show "\<not> (num = Infinity \<and> (\<forall>s rq. \<exists>result s'. up s rq = (Inr result, s')
          \<and> gp_data result \<noteq> [] \<and> truthy (gp_resultToken result)))"
    proof
      assume h: "num = Infinity \<and> (\<forall>s rq. \<exists>result s'. up s rq = (Inr result, s')
          \<and> gp_data result \<noteq> [] \<and> truthy (gp_resultToken result))"
      then obtain result s' where
        call: "up (ustate w) (gplayRequest options num st) = (Inr result, s')"
        and data: "gp_data result \<noteq> []" and token: "truthy (gp_resultToken result)"
        by blast
      from step h fetchBody_Inr [of up w options num st result s', OF call] data token
      have "\<exists>st1 w1. loop up options num st1 w1 = Some r" by auto
      then obtain st1 w1 where "loop up options num st1 w1 = Some r" by blast
      from IH [OF this] h show False by blast
    qed
  qed
  with assms show ?thesis by simp
qed

lemma truthy_tokenOf [simp]: "truthy (Some (tokenOf n)) = (0 < n)"
  by (simp add: truthy_def tokenOf_def)

lemma offsetOf_tokenOf [simp]: "offsetOf (Some (tokenOf n)) = n" "offsetOf None = 0"
  by (simp_all add: offsetOf_def tokenOf_def)

lemma sourceState_all:
  "length src \<le> m \<Longrightarrow> sourceState src m = sourceState src (length src)"
  by (simp add: sourceState_def)

lemma numLessEq_mono: "numLessEq a t \<Longrightarrow> b \<le> a \<Longrightarrow> numLessEq b t"
  by (cases t) auto

lemma fetchLoop_playSource:
  assumes "numLessEq (int f) num" and "f = 0 \<or> f < length src"
    and "case num of Finite n \<Rightarrow> m = nat n | Infinity \<Rightarrow> m = length src"
  shows "\<exists>w'. fetchLoop (playSource src) options num (sourceState src f) w
     = Some (Inr (sourceState src m), w')"
  using assms(1,2)
proof (induction "length src - f" arbitrary: f w rule: less_induct)
  case less
  note le = \<open>numLessEq (int f) num\<close> and inv = \<open>f = 0 \<or> f < length src\<close>
  have count: "st_fetchedCount (sourceState src f) = int f"
    using inv by (auto simp: sourceState_def)
  have bound: "\<And>l. numLessEq (int l) num \<Longrightarrow> length src \<le> l \<Longrightarrow> length src \<le> m"
    using assms(3) by (cases num) auto
  show ?case
  proof (cases "numLess (int f) num")
    case False
    with le assms(3) have f: "f = m" by (cases num) auto
    from False have "\<not> numLess (st_fetchedCount (sourceState src f)) num" by (simp add: count)
    then have "fetchLoop (playSource src) options num (sourceState src f) w
        = Some (Inr (sourceState src f), w)"
      by (rule fetchLoop_exit)
    then show ?thesis by (simp add: f)
  next
    case True
    define batch where "batch = nat (mathMin (numMinus num (int f)) 200)"
    have batch: "0 < batch" "numLessEq (int (f + batch)) num"
      using True by (cases num; auto simp: batch_def)+
    define pageData where "pageData = take batch (drop f src)"
    define nxt where "nxt = f + length pageData"
    define result where "result = \<lparr>gp_data = pageData,
        gp_resultToken = (if nxt < length src then Some (tokenOf nxt) else None)\<rparr>"
    define w1 where "w1 = w\<lparr>ustate := ustate w,
        fetchLog := fetchLog w @ [(gplayRequest options num (sourceState src f), Inr result)]\<rparr>"
    have "gp_num (gplayRequest options num (sourceState src f)) = int batch"
      using True by (cases num) (auto simp: gplayRequest_def batchSize_def batch_def count)
    moreover have "offsetOf (gp_nextPaginationToken (gplayRequest options num (sourceState src f))) = f"
      using inv by (auto simp: gplayRequest_def sourceState_def)
    ultimately have call: "playSource src (ustate w) (gplayRequest options num (sourceState src f))
        = (Inr result, ustate w)"
      unfolding playSource_def Let_def result_def nxt_def pageData_def
      by (simp only: nat_int)
    note body = fetchBody_Inr [of "playSource src" w options num "sourceState src f" result
        "ustate w", OF call, folded w1_def]
    have unfold: "fetchLoop (playSource src) options num (sourceState src f) w =
       (case fetchBody (playSource src) options num (sourceState src f) w of
          (Inl e, w1) \<Rightarrow> Some (Inl e, w1)
        | (Inr (Break st'), w1) \<Rightarrow> Some (Inr st', w1)
        | (Inr (Next st'), w1) \<Rightarrow> fetchLoop (playSource src) options num st' w1)"
      using True by (simp add: fetchLoop_unfold count)
    have data: "gp_data result = pageData" and tok: "gp_resultToken result =
        (if nxt < length src then Some (tokenOf nxt) else None)"
      by (simp_all add: result_def)
    show ?thesis
    proof (cases "pageData = []")
      case True
      then have "length src \<le> f" using batch(1) by (simp add: pageData_def)
      with inv have "f = 0" "src = []" by auto
      then have eq: "sourceState src f = sourceState src m"
        by (simp add: sourceState_def)
      have "fetchLoop (playSource src) options num (sourceState src f) w
          = Some (Inr (sourceState src f), w1)"
        using True by (simp add: unfold body data)
      then show ?thesis by (simp only: eq) blast
    next
      case nonempty: False
      then have flt: "f < length src" by (simp add: pageData_def)
      have len: "length pageData = min batch (length src - f)"
        by (simp add: pageData_def)
      have nxt_pos: "0 < nxt" using nonempty by (simp add: nxt_def)
      have nxt_le: "numLessEq (int nxt) num"
        using numLessEq_mono [OF batch(2), of "int nxt"] len by (simp add: nxt_def)
      have state': "\<lparr>st_allReviews = st_allReviews (sourceState src f) @ gp_data result,
            st_nextToken = gp_resultToken result,
            st_fetchedCount = st_fetchedCount (sourceState src f) + int (length (gp_data result))\<rparr>
          = sourceState src nxt"
        using flt nxt_pos
        by (auto simp: sourceState_def data tok nxt_def pageData_def take_add min_def)
      note body' = body [unfolded state']
      have none: "\<not> truthy None" by (simp add: truthy_def)
      show ?thesis
      proof (cases "nxt < length src")
        case False
        then have "length src \<le> nxt" by simp
        from bound [OF nxt_le this] have "sourceState src m = sourceState src (length src)"
          by (rule sourceState_all)
        moreover from \<open>length src \<le> nxt\<close>
        have "sourceState src nxt = sourceState src (length src)" by (rule sourceState_all)
        ultimately have eq: "sourceState src nxt = sourceState src m" by simp
        have "fetchLoop (playSource src) options num (sourceState src f) w
            = Some (Inr (sourceState src nxt), w1)"
          using False nonempty by (simp add: unfold body' data tok none)
        then show ?thesis by (simp only: eq) blast
      next
        case more: True
        have step: "fetchLoop (playSource src) options num (sourceState src f) w
            = fetchLoop (playSource src) options num (sourceState src nxt) (setTimeout 500 w1)"
          using more nonempty nxt_pos by (simp add: unfold body' data tok)
        have "\<exists>w'. fetchLoop (playSource src) options num (sourceState src nxt)
            (setTimeout 500 w1) = Some (Inr (sourceState src m), w')"
        proof (rule less.hyps)
          show "length src - nxt < length src - f"
            using flt nonempty by (cases pageData) (simp_all add: nxt_def)
          show "numLessEq (int nxt) num" by (rule nxt_le)
          show "nxt = 0 \<or> nxt < length src" using more by simp
        qed
        with step show ?thesis by simp
      qed
    qed
  qed
qed

lemma sourceState_0: "sourceState src 0 = \<lparr>st_allReviews = [], st_nextToken = None, st_fetchedCount = 0\<rparr>"
  by (simp add: sourceState_def)


lemma fetchLargeDataset_Inr:
  assumes "fetchLargeDataset up options w = Some (Inr r, w1)"
  shows "\<exists>st. fetchLoop up options (case ro_num options of None \<Rightarrow> Finite 100 | Some n \<Rightarrow> n)
      \<lparr>st_allReviews = [], st_nextToken = None, st_fetchedCount = 0\<rparr> w = Some (Inr st, w1)
    \<and> rr_reviews r = st_allReviews st"
  using assms
  by (auto simp: fetchLargeDataset_def Let_def split: option.splits sum.splits)

lemma fetchLargeDataset_playSource:
  assumes "ro_num options = Some (Finite n)" and "1 \<le> n"
  shows "\<exists>w'. fetchLargeDataset (playSource src) options w
     = Some (Inr \<lparr>rr_reviews = take (nat n) src,
            rr_nextPaginationToken =
              (if nat n < length src then Some (tokenOf (nat n)) else None),
            rr_totalCount = Some (min (nat n) (length src))\<rparr>, w')"
proof -
  have "\<exists>w'. fetchLoop (playSource src) options (Finite n) (sourceState src 0) w
      = Some (Inr (sourceState src (nat n)), w')"
    using assms(2) by (intro fetchLoop_playSource) simp_all
  then obtain w' where "fetchLoop (playSource src) options (Finite n) (sourceState src 0) w
      = Some (Inr (sourceState src (nat n)), w')" ..
  with assms have "fetchLargeDataset (playSource src) options w
      = Some (Inr \<lparr>rr_reviews = take (nat n) src,
            rr_nextPaginationToken =
              (if nat n < length src then Some (tokenOf (nat n)) else None),
            rr_totalCount = Some (min (nat n) (length src))\<rparr>, w')"
    by (auto simp: fetchLargeDataset_def sourceState_0 sourceState_def)
  then show ?thesis ..
qed

lemma fetchLargeDataset_playSource_Infinity:
  assumes "ro_num options = Some Infinity"
  shows "\<exists>w'. fetchLargeDataset (playSource src) options w
     = Some (Inr \<lparr>rr_reviews = src, rr_nextPaginationToken = None,
            rr_totalCount = Some (length src)\<rparr>, w')"
proof -
  have "\<exists>w'. fetchLoop (playSource src) options Infinity (sourceState src 0) w
      = Some (Inr (sourceState src (length src)), w')"
    by (intro fetchLoop_playSource) simp_all
  then obtain w' where "fetchLoop (playSource src) options Infinity (sourceState src 0) w
      = Some (Inr (sourceState src (length src)), w')" ..
  with assms have "fetchLargeDataset (playSource src) options w
      = Some (Inr \<lparr>rr_reviews = src, rr_nextPaginationToken = None,
            rr_totalCount = Some (length src)\<rparr>, w')"
    by (auto simp: fetchLargeDataset_def sourceState_0 sourceState_def)
  then show ?thesis ..
qed

lemma receivedPlay_newWorld [simp]: "receivedPlay (newWorld s) = []"
  by (simp add: receivedPlay_def newWorld_def)

lemma fetchLargeDataset_received:
  assumes "fetchLargeDataset up options (newWorld s) = Some (Inr r, w')"
  shows "rr_reviews r = receivedPlay w'"
proof -
  from fetchLargeDataset_Inr [OF assms] obtain st where
    loop: "fetchLoop up options (case ro_num options of None \<Rightarrow> Finite 100 | Some n \<Rightarrow> n)
      \<lparr>st_allReviews = [], st_nextToken = None, st_fetchedCount = 0\<rparr> (newWorld s)
      = Some (Inr st, w')"
    and r: "rr_reviews r = st_allReviews st"
    by blast
  from fetchLoop_received [OF loop] have "st_allReviews st = receivedPlay w'" by simp
  with r show ?thesis by simp
qed


lemma fetchLargeDataset_never_returns:
  assumes "\<forall>s rq. \<exists>result s'. up s rq = (Inr result, s') \<and> gp_data result \<noteq> []
      \<and> truthy (gp_resultToken result)"
    and "ro_num options = Some Infinity"
  shows "fetchLargeDataset up options w = None"
  using fetchLoop_never_returns [OF assms(1)] assms(2)
  by (simp add: fetchLargeDataset_def)

lemma fetchSingleBatch_playSource:
  assumes "ro_num options = Some (Finite n)" and "1 \<le> n" and "n \<le> 200"
    and "ro_nextPaginationToken options = None"
  shows "fst (fetchSingleBatch (playSource src) options w)
     = Inr \<lparr>rr_reviews = take (nat n) src,
            rr_nextPaginationToken =
              (if nat n < length src then Some (tokenOf (nat n)) else None),
            rr_totalCount = Some (min (nat n) (length src))\<rparr>"
  using assms
  by (simp add: fetchSingleBatch_def callUpstream_def playSource_def Let_def truthy_def
      min_def)

lemma getReviews_playSource:
  assumes "ro_num options = Some (Finite n)" and "1 \<le> n"
    and "ro_nextPaginationToken options = None"
  shows "map_option fst (ReviewService_getReviews (playSource src) options w)
     = Some (Inr \<lparr>rr_reviews = take (nat n) src,
            rr_nextPaginationToken =
              (if nat n < length src then Some (tokenOf (nat n)) else None),
            rr_totalCount = Some (min (nat n) (length src))\<rparr>)"
proof (cases "n > 200")
  case True
  from fetchLargeDataset_playSource [OF assms(1,2), of src w] True assms(1)
  show ?thesis
    by (auto simp: ReviewService_getReviews_def)
next
  case False
  with assms show ?thesis
    by (simp add: ReviewService_getReviews_def fetchSingleBatch_playSource)
qed

lemmas world_eval = newWorld_def callUpstream_def setTimeout_def consoleError_def

text \<open>
  C2, as stated, fails for the token-cursor aggregator: when the second batch of a
  request for 250 reviews fails, \<open>getReviews\<close> ends with that error.
\<close>

theorem play_failure_aborts_counterexample:
  "map_option fst (ReviewService_getReviews flakyPlay (playOptions (Finite 250)) (playWorld 0))
     = Some (Inl (Error (ascii ''Failed to fetch reviews batch: boom'')))"
  by (simp add: ReviewService_getReviews_def fetchLargeDataset_def fetchLoop.simps
      fetchBody_def fetchSingleBatch_def flakyPlay_def playOptions_def batchSize_def
      truthy_def errorMessage_def playWorld_def world_eval ascii_def Let_def)

text \<open>
  C2, amended: when the fetch of a page fails, the page-number aggregator logs the
  failure and goes on with the next page and the reviews collected so far; the
  token-cursor aggregator logs the failure and ends the whole aggregation with the error.
\<close>

theorem page_failure_policy:
  "(numLessEq page totalPages \<and> up (ustate w) (appStoreRequest options page) = (Inl e, s') \<longrightarrow>
      paginationLoop up options totalReviews totalPages page allReviews w
        = paginationLoop up options totalReviews totalPages (page + 1) allReviews
            (consoleError
               (ascii ''Error fetching App Store page '' @ numberToString page @ ascii '':'')
               (consoleError (ascii ''Error fetching App Store reviews:'')
                  (w\<lparr>ustate := s',
                     fetchLog := fetchLog w @ [(appStoreRequest options page, Inl e)]\<rparr>))))
   \<and> (numLess (st_fetchedCount st) num
        \<and> pup (ustate pw) (gplayRequest poptions num st) = (Inl pe, ps') \<longrightarrow>
        fetchLoop pup poptions num st pw
          = Some (Inl (Error (ascii ''Failed to fetch reviews batch: '' @ errorMessage pe)),
             consoleError (ascii ''Error fetching single batch:'')
               (pw\<lparr>ustate := ps',
                   fetchLog := fetchLog pw @ [(gplayRequest poptions num st, Inl pe)]\<rparr>)))"
proof (intro conjI impI)
  assume "numLessEq page totalPages
      \<and> up (ustate w) (appStoreRequest options page) = (Inl e, s')"
  then have guard: "numLessEq page totalPages"
    and call: "up (ustate w) (appStoreRequest options page) = (Inl e, s')" by simp_all
  from paginationBody_Inl [of up w options page e s' totalReviews allReviews, OF call]
  show "paginationLoop up options totalReviews totalPages page allReviews w
        = paginationLoop up options totalReviews totalPages (page + 1) allReviews
            (consoleError
               (ascii ''Error fetching App Store page '' @ numberToString page @ ascii '':'')
               (consoleError (ascii ''Error fetching App Store reviews:'')
                  (w\<lparr>ustate := s',
                     fetchLog := fetchLog w @ [(appStoreRequest options page, Inl e)]\<rparr>)))"
    by (simp add: paginationLoop_step [OF guard])
next
  assume "numLess (st_fetchedCount st) num
      \<and> pup (ustate pw) (gplayRequest poptions num st) = (Inl pe, ps')"
  then have guard: "numLess (st_fetchedCount st) num"
    and call: "pup (ustate pw) (gplayRequest poptions num st) = (Inl pe, ps')" by simp_all
  from fetchBody_Inl [of pup pw poptions num st pe ps', OF call]
  show "fetchLoop pup poptions num st pw
          = Some (Inl (Error (ascii ''Failed to fetch reviews batch: '' @ errorMessage pe)),
             consoleError (ascii ''Error fetching single batch:'')
               (pw\<lparr>ustate := ps',
                   fetchLog := fetchLog pw @ [(gplayRequest poptions num st, Inl pe)]\<rparr>))"
    by (simp add: fetchLoop_unfold [OF guard])
qed

theorem page_failure_policy_witness:
  "numLessEq 1 (Finite 3)
   \<and> failingStore (ustate storeWorld) (appStoreRequest appStoreOptions 1)
       = (Inl (ThrownError (ascii ''boom'')), ())
   \<and> paginationLoop failingStore appStoreOptions (Finite 120) (Finite 3) 1 [] storeWorld
        = paginationLoop failingStore appStoreOptions (Finite 120) (Finite 3) (1 + 1) []
            (consoleError
               (ascii ''Error fetching App Store page '' @ numberToString 1 @ ascii '':'')
               (consoleError (ascii ''Error fetching App Store reviews:'')
                  (storeWorld\<lparr>ustate := (),
                     fetchLog := fetchLog storeWorld
                       @ [(appStoreRequest appStoreOptions 1, Inl (ThrownError (ascii ''boom'')))]\<rparr>)))
   \<and> numLess (st_fetchedCount \<lparr>st_allReviews = [], st_nextToken = None, st_fetchedCount = 0\<rparr>)
        (Finite 250)
   \<and> flakyPlay (ustate (playWorld 1))
         (gplayRequest (playOptions (Finite 250)) (Finite 250)
            \<lparr>st_allReviews = [], st_nextToken = None, st_fetchedCount = 0\<rparr>)
       = (Inl (ThrownError (ascii ''boom'')), 2)
   \<and> fetchLoop flakyPlay (playOptions (Finite 250)) (Finite 250)
         \<lparr>st_allReviews = [], st_nextToken = None, st_fetchedCount = 0\<rparr> (playWorld 1)
       = Some (Inl (Error (ascii ''Failed to fetch reviews batch: ''
                       @ errorMessage (ThrownError (ascii ''boom'')))),
          consoleError (ascii ''Error fetching single batch:'')
            ((playWorld 1)\<lparr>ustate := 2,
                fetchLog := fetchLog (playWorld 1)
                  @ [(gplayRequest (playOptions (Finite 250)) (Finite 250)
                        \<lparr>st_allReviews = [], st_nextToken = None, st_fetchedCount = 0\<rparr>,
                      Inl (ThrownError (ascii ''boom'')))]\<rparr>))"
proof -
  have a: "failingStore (ustate storeWorld) (appStoreRequest appStoreOptions 1)
       = (Inl (ThrownError (ascii ''boom'')), ())"
    by (simp add: failingStore_def)
  have b: "flakyPlay (ustate (playWorld 1))
         (gplayRequest (playOptions (Finite 250)) (Finite 250)
            \<lparr>st_allReviews = [], st_nextToken = None, st_fetchedCount = 0\<rparr>)
       = (Inl (ThrownError (ascii ''boom'')), 2)"
    by (simp add: flakyPlay_def playWorld_def newWorld_def)
  have c: "numLess (st_fetchedCount \<lparr>st_allReviews = [], st_nextToken = None,
      st_fetchedCount = 0\<rparr>) (Finite 250)"
    by simp
  have d: "numLessEq 1 (Finite 3)" by simp
  note T = page_failure_policy [of 1 "Finite 3" failingStore storeWorld appStoreOptions
      "ThrownError (ascii ''boom'')" "()" "Finite 120" "[]"
      "\<lparr>st_allReviews = [], st_nextToken = None, st_fetchedCount = 0\<rparr>" "Finite 250"
      flakyPlay "playWorld 1" "playOptions (Finite 250)" "ThrownError (ascii ''boom'')" 2]
  note c1 = T [THEN conjunct1, THEN mp, OF conjI [OF d a]]
  note c2 = T [THEN conjunct2, THEN mp, OF conjI [OF c b]]
  show ?thesis by (intro conjI d a c1 c b c2)
qed

lemma getReviews_result:
  "(case fst (AppStoreService_getReviews up options w) of
      Inl e \<Rightarrow> True
    | Inr r \<Rightarrow> asr_hasMore r = (length (asr_reviews r) = 50))"
  by (simp add: AppStoreService_getReviews_def callUpstream_def Let_def case_prod_beta
      split: sum.splits prod.splits)

lemma getReviews_effects:
  "fetchLog (snd (AppStoreService_getReviews up options w))
     = fetchLog w @ [(appStoreRequest options
          (case aso_page options of None \<Rightarrow> 1 | Some p \<Rightarrow> p),
        fst (up (ustate w) (appStoreRequest options
          (case aso_page options of None \<Rightarrow> 1 | Some p \<Rightarrow> p))))]"
  "delays (snd (AppStoreService_getReviews up options w)) = delays w"
  by (auto simp: AppStoreService_getReviews_def callUpstream_def Let_def case_prod_beta
      appStoreRequest_def consoleError_def split: sum.splits prod.splits)

lemma getReviewsWithPagination_paged_hasMore:
  assumes "1 \<le> n"
  shows "map_option (asr_hasMore \<circ> fst) (AppStoreService_getReviewsWithPagination
      (pagedSource src) options (Finite n) w) = Some (n \<le> int (length src))"
proof -
  from assms have "numLess 0 (Finite n)" by simp
  from getReviewsWithPagination_paged [OF this, of src options w] assms
  show ?thesis by auto
qed

lemma getReviewsWithPagination_paged_Infinity:
  "map_option (asr_hasMore \<circ> fst) (AppStoreService_getReviewsWithPagination
      (pagedSource src) options Infinity w) = Some False"
proof -
  have "numLess 0 Infinity" by simp
  from getReviewsWithPagination_paged [OF this, of src options w]
  show ?thesis by auto
qed

text \<open>
  C10: the multi-page result has \<open>hasMore\<close> exactly when it holds \<open>totalReviews\<close>
  records. On a source that serves its records in pages of 50 this is exactly when the
  source has at least \<open>totalReviews\<close> records, so it is false when the source runs out
  first (always so for the target \<open>Infinity\<close>) and true when the source holds exactly
  \<open>totalReviews\<close> records. A single page has \<open>hasMore\<close> exactly when it has 50 records.
\<close>

theorem hasMore_flag:
  "(\<exists>r w'. AppStoreService_getReviewsWithPagination up options (Finite totalReviews) w
        = Some (r, w')
      \<and> asr_hasMore r = (int (length (asr_reviews r)) = totalReviews))
   \<and> (AppStoreService_getReviewsWithPagination up options target w = Some (res, w1) \<longrightarrow>
        asr_hasMore res = numEq (int (length (asr_reviews res))) target)
   \<and> (1 \<le> totalReviews \<longrightarrow>
        map_option (asr_hasMore \<circ> fst) (AppStoreService_getReviewsWithPagination
           (pagedSource src) options (Finite totalReviews) w)
        = Some (totalReviews \<le> int (length src)))
   \<and> map_option (asr_hasMore \<circ> fst) (AppStoreService_getReviewsWithPagination
         (pagedSource src) options Infinity w) = Some False
   \<and> (case fst (AppStoreService_getReviews up options w) of
         Inl e \<Rightarrow> True
       | Inr r \<Rightarrow> asr_hasMore r = (length (asr_reviews r) = 50))"
proof (intro conjI impI)
  from getReviewsWithPagination_returns [of up options totalReviews w]
  show "\<exists>r w'. AppStoreService_getReviewsWithPagination up options (Finite totalReviews) w
        = Some (r, w')
      \<and> asr_hasMore r = (int (length (asr_reviews r)) = totalReviews)"
    by blast
next
  assume "AppStoreService_getReviewsWithPagination up options target w = Some (res, w1)"
  from getReviewsWithPagination_loop [OF this]
  show "asr_hasMore res = numEq (int (length (asr_reviews res))) target" by simp
next
  assume "1 \<le> totalReviews"
  then show "map_option (asr_hasMore \<circ> fst) (AppStoreService_getReviewsWithPagination
           (pagedSource src) options (Finite totalReviews) w)
        = Some (totalReviews \<le> int (length src))"
    by (rule getReviewsWithPagination_paged_hasMore)
next
  show "map_option (asr_hasMore \<circ> fst) (AppStoreService_getReviewsWithPagination
         (pagedSource src) options Infinity w) = Some False"
    by (rule getReviewsWithPagination_paged_Infinity)
next
  show "case fst (AppStoreService_getReviews up options w) of
         Inl e \<Rightarrow> True
       | Inr r \<Rightarrow> asr_hasMore r = (length (asr_reviews r) = 50)"
    by (rule getReviews_result)
qed

lemma twoReviews_run:
  "AppStoreService_getReviewsWithPagination (pagedSource twoReviews) appStoreOptions (Finite 2)
     storeWorld
   = Some (\<lparr>asr_reviews = twoReviews, asr_hasMore = True, asr_totalCount = 2\<rparr>,
           \<lparr>ustate = (), fetchLog = [(appStoreRequest appStoreOptions 1, Inr twoReviews)],
            delays = [], errorLog = []\<rparr>)"
  by (simp add: AppStoreService_getReviewsWithPagination_def paginationLoop.simps
      paginationBody_paged reviewsPerPage_def twoReviews_def storeWorld_def newWorld_def Let_def)

theorem hasMore_flag_witness:
  "AppStoreService_getReviewsWithPagination (pagedSource twoReviews) appStoreOptions (Finite 2)
     storeWorld
   = Some (\<lparr>asr_reviews = twoReviews, asr_hasMore = True, asr_totalCount = 2\<rparr>,
           \<lparr>ustate = (), fetchLog = [(appStoreRequest appStoreOptions 1, Inr twoReviews)],
            delays = [], errorLog = []\<rparr>)
   \<and> asr_hasMore \<lparr>asr_reviews = twoReviews, asr_hasMore = True, asr_totalCount = 2\<rparr>
       = numEq (int (length (asr_reviews
           \<lparr>asr_reviews = twoReviews, asr_hasMore = True, asr_totalCount = 2\<rparr>))) (Finite 2)
   \<and> (1::int) \<le> 2
   \<and> map_option (asr_hasMore \<circ> fst) (AppStoreService_getReviewsWithPagination
         (pagedSource twoReviews) appStoreOptions (Finite 2) storeWorld) = Some True
   \<and> map_option (asr_hasMore \<circ> fst) (AppStoreService_getReviewsWithPagination
         (pagedSource twoReviews) appStoreOptions (Finite 3) storeWorld) = Some False"
proof -
  have h: "(1::int) \<le> 2" "(1::int) \<le> 3" by simp_all
  have T2': "AppStoreService_getReviewsWithPagination (pagedSource twoReviews) appStoreOptions
        (Finite 2) storeWorld
      = Some (\<lparr>asr_reviews = twoReviews, asr_hasMore = True, asr_totalCount = 2\<rparr>,
           \<lparr>ustate = (), fetchLog = [(appStoreRequest appStoreOptions 1, Inr twoReviews)],
            delays = [], errorLog = []\<rparr>) \<longrightarrow>
      asr_hasMore \<lparr>asr_reviews = twoReviews, asr_hasMore = True, asr_totalCount = 2\<rparr>
       = numEq (int (length (asr_reviews
           \<lparr>asr_reviews = twoReviews, asr_hasMore = True, asr_totalCount = 2\<rparr>))) (Finite 2)"
    using hasMore_flag [of "pagedSource twoReviews" appStoreOptions 2 storeWorld
        "Finite 2" "\<lparr>asr_reviews = twoReviews, asr_hasMore = True, asr_totalCount = 2\<rparr>"
        "\<lparr>ustate = (), fetchLog = [(appStoreRequest appStoreOptions 1, Inr twoReviews)],
          delays = [], errorLog = []\<rparr>" twoReviews, THEN conjunct2, THEN conjunct1] .
  note e = T2' [THEN mp, OF twoReviews_run]
  have a: "map_option (asr_hasMore \<circ> fst) (AppStoreService_getReviewsWithPagination
         (pagedSource twoReviews) appStoreOptions (Finite 2) storeWorld) = Some True"
    using hasMore_flag [of failingStore appStoreOptions 2 storeWorld "Finite 2" _ _ twoReviews,
        THEN conjunct2, THEN conjunct2, THEN conjunct1, THEN mp, OF h(1)]
    by (simp add: twoReviews_def)
  have b: "map_option (asr_hasMore \<circ> fst) (AppStoreService_getReviewsWithPagination
         (pagedSource twoReviews) appStoreOptions (Finite 3) storeWorld) = Some False"
    using hasMore_flag [of failingStore appStoreOptions 3 storeWorld "Finite 2" _ _ twoReviews,
        THEN conjunct2, THEN conjunct2, THEN conjunct1, THEN mp, OF h(2)]
    by (simp add: twoReviews_def)
  show ?thesis by (intro conjI twoReviews_run e h(1) a b)
qed

lemma handler_single_page:
  assumes "appId \<noteq> []" and "numGreaterEq 50 (numReviewsOf numParam 100)"
  shows "\<exists>resp w'. appStoreReviewsHandler up appId numParam country sortParam w = Some (resp, w')
      \<and> requests w' = requests w @
        [\<lparr>rq_id = appId, rq_country = country, rq_page = 1,
          rq_sort = AppStoreService_mapSortOption
            (if sortParam = ascii ''mostHelpful'' then MostHelpful else MostRecent)\<rparr>]
      \<and> delays w' = delays w"
proof -
  define options where "options = \<lparr>aso_appId = appId, aso_country = Some country,
      aso_page = None, aso_sort = Some (if sortParam = ascii ''mostHelpful'' then MostHelpful
        else MostRecent)\<rparr>"
  obtain res w1 where call: "AppStoreService_getReviews up options w = (res, w1)"
    by (cases "AppStoreService_getReviews up options w")
  have log: "requests w1 = requests w @
        [\<lparr>rq_id = appId, rq_country = country, rq_page = 1,
          rq_sort = AppStoreService_mapSortOption
            (if sortParam = ascii ''mostHelpful'' then MostHelpful else MostRecent)\<rparr>]"
    and del: "delays w1 = delays w"
    using getReviews_effects [of up options w] call
    by (simp_all add: options_def requests_def appStoreRequest_def)
  show ?thesis
  proof (cases res)
    case (Inl e)
    obtain message where e: "e = Error message" by (cases e)
    have "appStoreReviewsHandler up appId numParam country sortParam w
        = Some (Status500 (ascii ''Failed to fetch App Store reviews'') message,
                consoleError (ascii ''Error in App Store reviews endpoint:'') w1)"
      using assms call Inl e
      by (simp add: appStoreReviewsHandler_def Let_def options_def [symmetric])
    moreover have "requests (consoleError (ascii ''Error in App Store reviews endpoint:'') w1)
        = requests w1"
      "delays (consoleError (ascii ''Error in App Store reviews endpoint:'') w1) = delays w1"
      by (simp_all add: requests_def consoleError_def)
    ultimately show ?thesis using log del by simp
  next
    case (Inr r)
    have "appStoreReviewsHandler up appId numParam country sortParam w
        = Some (Json \<lparr>js_data = asr_reviews r, js_requestedCount = numReviewsOf numParam 100,
                      js_actualCount = length (asr_reviews r), js_hasMore = asr_hasMore r\<rparr>, w1)"
      using assms call Inr
      by (simp add: appStoreReviewsHandler_def Let_def options_def [symmetric])
    then show ?thesis using log del by simp
  qed
qed

lemma handler_single_page_paged:
  assumes "appId \<noteq> []" and "numGreaterEq 50 (numReviewsOf numParam 100)"
  shows "\<exists>w'. appStoreReviewsHandler (pagedSource src) appId numParam country sortParam w
      = Some (Json \<lparr>js_data = take 50 src,
                    js_requestedCount = numReviewsOf numParam 100,
                    js_actualCount = min 50 (length src),
                    js_hasMore = (50 \<le> length src)\<rparr>, w')"
  using assms
  by (auto simp: appStoreReviewsHandler_def AppStoreService_getReviews_def callUpstream_def
      pagedSource_def Let_def min_def)



lemma paginationLoop_120:
  fixes w :: "'s appStoreWorld"
  assumes "120 \<le> length src"
  defines "p1 \<equiv> take 50 src" and "p2 \<equiv> take 50 (drop 50 src)"
    and "p3 \<equiv> take 50 (drop 100 src)"
  shows "paginationLoop (pagedSource src) options (Finite 120) (Finite 3) 1 [] w
     = Some (p1 @ p2 @ take 20 p3,
        (setTimeout 1000 (setTimeout 1000 w))
          \<lparr>fetchLog := fetchLog w @
             [(appStoreRequest options 1, Inr p1), (appStoreRequest options 2, Inr p2),
              (appStoreRequest options 3, Inr p3)]\<rparr>)"
proof -
  have l1: "length p1 = 50" and l2: "length p2 = 50" and l3: "20 \<le> length p3"
    using assms(1) by (simp_all add: p1_def p2_def p3_def)
  then have ne: "p1 \<noteq> []" "p2 \<noteq> []" "p3 \<noteq> []" by auto
  define w1 where "w1 = setTimeout 1000
      (w\<lparr>ustate := ustate w, fetchLog := fetchLog w @ [(appStoreRequest options 1, Inr p1)]\<rparr>)"
  define w2 where "w2 = setTimeout 1000
      (w1\<lparr>ustate := ustate w1, fetchLog := fetchLog w1 @ [(appStoreRequest options 2, Inr p2)]\<rparr>)"
  define w3 where "w3 =
      w2\<lparr>ustate := ustate w2, fetchLog := fetchLog w2 @ [(appStoreRequest options 3, Inr p3)]\<rparr>"
  have b1: "paginationBody (pagedSource src) options (Finite 120) 1 [] w = (Next p1, w1)"
    using ne(1) l1 unfolding paginationBody_paged Let_def w1_def
    by (simp add: p1_def [symmetric])
  have b2: "paginationBody (pagedSource src) options (Finite 120) 2 p1 w1 = (Next (p1 @ p2), w2)"
    using ne(2) l1 l2 unfolding paginationBody_paged Let_def w2_def
    by (simp add: p2_def [symmetric])
  have sp: "splice (Finite 120) (p1 @ p2 @ p3) = p1 @ p2 @ take 20 p3"
    using l1 l2 by simp
  have b3: "paginationBody (pagedSource src) options (Finite 120) 3 (p1 @ p2) w2
      = (Break (p1 @ p2 @ take 20 p3), w3)"
    using ne(3) l1 l2 l3 sp unfolding paginationBody_paged Let_def w3_def
    by (simp add: p3_def [symmetric])
  have "paginationLoop (pagedSource src) options (Finite 120) (Finite 3) 1 [] w
      = Some (p1 @ p2 @ take 20 p3, w3)"
    using b1 b2 b3 by (simp add: paginationLoop_step)
  moreover have "w3 = (setTimeout 1000 (setTimeout 1000 w))
          \<lparr>fetchLog := fetchLog w @
             [(appStoreRequest options 1, Inr p1), (appStoreRequest options 2, Inr p2),
              (appStoreRequest options 3, Inr p3)]\<rparr>"
    by (simp add: w3_def w2_def w1_def setTimeout_def)
  ultimately show ?thesis by simp
qed

lemma handler_120:
  fixes s :: 's
  assumes "appId \<noteq> []" and "120 \<le> length src"
  shows "\<exists>w'. appStoreReviewsHandler (pagedSource src) appId (Integer 120) country sortParam
            (newWorld s :: 's appStoreWorld)
      = Some (Json \<lparr>js_data = take 50 src @ take 50 (drop 50 src) @ take 20 (drop 100 src),
              js_requestedCount = Finite 120, js_actualCount = 120, js_hasMore = True\<rparr>, w')
    \<and> map rq_page (requests w') = [1, 2, 3]
    \<and> pagesOf (fetchLog w') = [take 50 src, take 50 (drop 50 src), take 50 (drop 100 src)]"
proof -
  define options where "options = \<lparr>aso_appId = appId, aso_country = Some country,
      aso_page = None, aso_sort = Some (if sortParam = ascii ''mostHelpful'' then MostHelpful
        else MostRecent)\<rparr>"
  have tp: "totalPagesOf (Finite 120) = Finite 3" by (simp add: reviewsPerPage_def)
  have n: "numReviewsOf (Integer 120) 100 = Finite 120" by simp
  note loop = paginationLoop_120 [OF assms(2), of options "newWorld s"]
  have run: "AppStoreService_getReviewsWithPagination (pagedSource src) options (Finite 120)
        (newWorld s)
      = Some (\<lparr>asr_reviews = take 50 src @ take 50 (drop 50 src) @ take 20 (take 50 (drop 100 src)),
          asr_hasMore = True, asr_totalCount = 120\<rparr>,
         (setTimeout 1000 (setTimeout 1000 (newWorld s)))
          \<lparr>fetchLog := fetchLog (newWorld s) @
             [(appStoreRequest options 1, Inr (take 50 src)),
              (appStoreRequest options 2, Inr (take 50 (drop 50 src))),
              (appStoreRequest options 3, Inr (take 50 (drop 100 src)))]\<rparr>)"
    using assms(2) getReviewsWithPagination_Some [of "pagedSource src" options "Finite 120"
        "newWorld s", unfolded tp, OF loop]
    by simp
  have handler: "appStoreReviewsHandler (pagedSource src) appId (Integer 120) country sortParam
        (newWorld s)
      = Some (Json \<lparr>js_data = take 50 src @ take 50 (drop 50 src) @ take 20 (drop 100 src),
              js_requestedCount = Finite 120, js_actualCount = 120, js_hasMore = True\<rparr>,
         (setTimeout 1000 (setTimeout 1000 (newWorld s)))
          \<lparr>fetchLog := fetchLog (newWorld s) @
             [(appStoreRequest options 1, Inr (take 50 src)),
              (appStoreRequest options 2, Inr (take 50 (drop 50 src))),
              (appStoreRequest options 3, Inr (take 50 (drop 100 src)))]\<rparr>)"
    using assms
    by (simp add: appStoreReviewsHandler_def n Let_def options_def [symmetric] run)
  show ?thesis
    unfolding handler by (simp add: requests_def newWorld_def appStoreRequest_def)
qed

text \<open>
  C8: a request for at most 50 App Store reviews, such as 30, makes one call, for page 1,
  and waits for no delay. A request for 120 reviews on a source of at least 120 makes
  three calls, for the pages 1, 2 and 3, and answers with the 50 records of the first
  page, the 50 of the second and the first 20 of the third.
\<close>

theorem appstore_fetch_scenarios:
  "numReviewsOf (Integer 30) 100 = Finite 30
   \<and> (appId \<noteq> [] \<and> numGreaterEq 50 (numReviewsOf numParam 100) \<longrightarrow>
        (\<exists>resp w'. appStoreReviewsHandler up appId numParam country sortParam w
             = Some (resp, w')
           \<and> requests w' = requests w @
               [\<lparr>rq_id = appId, rq_country = country, rq_page = 1,
                 rq_sort = AppStoreService_mapSortOption
                   (if sortParam = ascii ''mostHelpful'' then MostHelpful else MostRecent)\<rparr>]
           \<and> delays w' = delays w))
   \<and> (appId \<noteq> [] \<and> 120 \<le> length src \<longrightarrow>
        (\<exists>w'. appStoreReviewsHandler (pagedSource src) appId (Integer 120) country sortParam
                (newWorld s)
             = Some (Json \<lparr>js_data = take 50 src @ take 50 (drop 50 src) @ take 20 (drop 100 src),
                      js_requestedCount = Finite 120, js_actualCount = 120,
                      js_hasMore = True\<rparr>, w')
           \<and> map rq_page (requests w') = [1, 2, 3]
           \<and> pagesOf (fetchLog w')
               = [take 50 src, take 50 (drop 50 src), take 50 (drop 100 src)]))"
  using handler_single_page [of appId numParam up country sortParam w]
    handler_120 [of appId src country sortParam s]
  by simp

theorem appstore_fetch_scenarios_witness:
  "ascii ''310633997'' \<noteq> [] \<and> numGreaterEq 50 (numReviewsOf (Integer 30) 100)
   \<and> map_option (requests \<circ> snd)
        (appStoreReviewsHandler failingStore (ascii ''310633997'') (Integer 30)
           (ascii ''tr'') (ascii ''mostRecent'') storeWorld)
      = Some (requests storeWorld @
          [\<lparr>rq_id = ascii ''310633997'', rq_country = ascii ''tr'', rq_page = 1,
            rq_sort = AppStoreService_mapSortOption
              (if ascii ''mostRecent'' = ascii ''mostHelpful'' then MostHelpful
               else MostRecent)\<rparr>])
   \<and> map_option (delays \<circ> snd)
        (appStoreReviewsHandler failingStore (ascii ''310633997'') (Integer 30)
           (ascii ''tr'') (ascii ''mostRecent'') storeWorld)
      = Some (delays storeWorld)
   \<and> (120::nat) \<le> length manyReviews
   \<and> map_option (map rq_page \<circ> requests \<circ> snd)
        (appStoreReviewsHandler (pagedSource manyReviews) (ascii ''310633997'') (Integer 120)
           (ascii ''tr'') (ascii ''mostRecent'') storeWorld) = Some [1, 2, 3]"
proof -
  have a: "ascii ''310633997'' \<noteq> []" by (simp add: ascii_def)
  have b: "numGreaterEq 50 (numReviewsOf (Integer 30) 100)" by simp
  have c: "(120::nat) \<le> length manyReviews" by (simp add: manyReviews_def)
  note T = appstore_fetch_scenarios [of "ascii ''310633997''" "Integer 30" failingStore
      "ascii ''tr''" "ascii ''mostRecent''" storeWorld manyReviews "()"]
  note c1 = T [THEN conjunct2, THEN conjunct1, THEN mp, OF conjI [OF a b]]
  note c2 = T [THEN conjunct2, THEN conjunct2, THEN mp, OF conjI [OF a c],
      folded storeWorld_def]
  from c1 have d1: "map_option (requests \<circ> snd)
        (appStoreReviewsHandler failingStore (ascii ''310633997'') (Integer 30)
           (ascii ''tr'') (ascii ''mostRecent'') storeWorld)
      = Some (requests storeWorld @
          [\<lparr>rq_id = ascii ''310633997'', rq_country = ascii ''tr'', rq_page = 1,
            rq_sort = AppStoreService_mapSortOption
              (if ascii ''mostRecent'' = ascii ''mostHelpful'' then MostHelpful
               else MostRecent)\<rparr>])"
    and d2: "map_option (delays \<circ> snd)
        (appStoreReviewsHandler failingStore (ascii ''310633997'') (Integer 30)
           (ascii ''tr'') (ascii ''mostRecent'') storeWorld)
      = Some (delays storeWorld)"
    by auto
  from c2 have d3: "map_option (map rq_page \<circ> requests \<circ> snd)
        (appStoreReviewsHandler (pagedSource manyReviews) (ascii ''310633997'') (Integer 120)
           (ascii ''tr'') (ascii ''mostRecent'') storeWorld) = Some [1, 2, 3]"
    by auto
  show ?thesis by (intro conjI a b d1 d2 c d3)
qed



text \<open>
  The same holds for the token-cursor aggregator on an upstream that answers every call
  with a review and a token.
\<close>

lemma infinite_target_play:
  "ReviewService_getReviews endlessPlay (playOptions Infinity) (playWorld 0) = None"
proof -
  have "\<forall>s rq. \<exists>result s'. endlessPlay s rq = (Inr result, s') \<and> gp_data result \<noteq> []
      \<and> truthy (gp_resultToken result)"
    by (simp add: endlessPlay_def truthy_def ascii_def)
  from fetchLargeDataset_never_returns [OF this, of "playOptions Infinity" "playWorld 0"]
  show ?thesis by (simp add: ReviewService_getReviews_def playOptions_def)
qed



text \<open>
  C1, evaluated on the App Store request path: a request for at most 50 reviews is
  answered with the first page as the upstream gave it. The page is not cut down to the
  number asked for, so a request for 30 reviews of an application with at least 50 gets
  50 records, where the multi-page path cuts its result down to the number asked for.
\<close>

theorem single_page_not_trimmed:
  "appId \<noteq> [] \<and> numGreaterEq 50 (numReviewsOf numParam 100) \<longrightarrow>
     (\<exists>w'. appStoreReviewsHandler (pagedSource src) appId numParam country sortParam w
        = Some (Json \<lparr>js_data = take 50 src,
                      js_requestedCount = numReviewsOf numParam 100,
                      js_actualCount = min 50 (length src),
                      js_hasMore = (50 \<le> length src)\<rparr>, w'))"
  using handler_single_page_paged [of appId numParam src country sortParam w] by blast

theorem single_page_not_trimmed_witness:
  "ascii ''310633997'' \<noteq> [] \<and> numGreaterEq 50 (numReviewsOf (Integer 30) 100)
   \<and> map_option fst (appStoreReviewsHandler (pagedSource manyReviews) (ascii ''310633997'')
        (Integer 30) (ascii ''tr'') (ascii ''mostRecent'') storeWorld)
      = Some (Json \<lparr>js_data = take 50 manyReviews, js_requestedCount = Finite 30,
                    js_actualCount = 50, js_hasMore = True\<rparr>)"
proof -
  have a: "ascii ''310633997'' \<noteq> []" by (simp add: ascii_def)
  have b: "numGreaterEq 50 (numReviewsOf (Integer 30) 100)" by simp
  note T = single_page_not_trimmed [of "ascii ''310633997''" "Integer 30" manyReviews
      "ascii ''tr''" "ascii ''mostRecent''" storeWorld, THEN mp, OF conjI [OF a b]]
  from T have c: "map_option fst (appStoreReviewsHandler (pagedSource manyReviews)
        (ascii ''310633997'') (Integer 30) (ascii ''tr'') (ascii ''mostRecent'') storeWorld)
      = Some (Json \<lparr>js_data = take 50 manyReviews, js_requestedCount = Finite 30,
                    js_actualCount = 50, js_hasMore = True\<rparr>)"
    by (auto simp: manyReviews_def)
  show ?thesis by (intro conjI a b c)
qed

text \<open>
  The multi-page aggregators keep the count contract. For a target \<open>N \<ge> 1\<close> and a
  source that serves the records of a list in order (in pages of 50 by page number, or
  in batches of the requested size by token), both return the first \<open>N\<close> records of the
  list, which is the whole list when it has fewer; the page-number result then has
  \<open>hasMore = false\<close> and the token-cursor result has no continuation token. For every
  upstream, the page-number result is the first \<open>N\<close> of the records received, in the
  order received, and the token-cursor result is all of the records received.
  \<open>ReviewService.getReviews\<close>, which takes the single batch for \<open>N \<le> 200\<close>, returns
  the same as \<open>fetchLargeDataset\<close>.
\<close>

lemma multi_page_count_contract:
  assumes "1 \<le> N"
  shows "(\<exists>w'. AppStoreService_getReviewsWithPagination (pagedSource asrc) aoptions
            (Finite N) aw
          = Some (\<lparr>asr_reviews = take (nat N) asrc, asr_hasMore = (N \<le> int (length asrc)),
                    asr_totalCount = min (nat N) (length asrc)\<rparr>, w'))
   \<and> (\<exists>w'. fetchLargeDataset (playSource psrc) (poptions\<lparr>ro_num := Some (Finite N)\<rparr>) pw
          = Some (Inr \<lparr>rr_reviews = take (nat N) psrc,
                    rr_nextPaginationToken =
                      (if nat N < length psrc then Some (tokenOf (nat N)) else None),
                    rr_totalCount = Some (min (nat N) (length psrc))\<rparr>, w'))
   \<and> (AppStoreService_getReviewsWithPagination aup aoptions (Finite N) (newWorld s)
          = Some (r, w1) \<longrightarrow> asr_reviews r = take (nat N) (received w1))
   \<and> (fetchLargeDataset pup poptions (newWorld t) = Some (Inr pr, pw1) \<longrightarrow>
          rr_reviews pr = receivedPlay pw1)
   \<and> map_option fst (ReviewService_getReviews (playSource psrc)
           (poptions\<lparr>ro_num := Some (Finite N), ro_nextPaginationToken := None\<rparr>) pw)
       = Some (Inr \<lparr>rr_reviews = take (nat N) psrc,
              rr_nextPaginationToken =
                (if nat N < length psrc then Some (tokenOf (nat N)) else None),
              rr_totalCount = Some (min (nat N) (length psrc))\<rparr>)"
proof (intro conjI impI)
  from assms have pos: "numLess 0 (Finite N)" by simp
  from getReviewsWithPagination_paged [OF pos, of asrc aoptions aw] assms
  show "\<exists>w'. AppStoreService_getReviewsWithPagination (pagedSource asrc) aoptions
            (Finite N) aw
          = Some (\<lparr>asr_reviews = take (nat N) asrc, asr_hasMore = (N \<le> int (length asrc)),
                    asr_totalCount = min (nat N) (length asrc)\<rparr>, w')"
    by (auto simp: min_def)
  show "\<exists>w'. fetchLargeDataset (playSource psrc) (poptions\<lparr>ro_num := Some (Finite N)\<rparr>) pw
          = Some (Inr \<lparr>rr_reviews = take (nat N) psrc,
                    rr_nextPaginationToken =
                      (if nat N < length psrc then Some (tokenOf (nat N)) else None),
                    rr_totalCount = Some (min (nat N) (length psrc))\<rparr>, w')"
    using assms by (intro fetchLargeDataset_playSource) simp_all
  show "map_option fst (ReviewService_getReviews (playSource psrc)
           (poptions\<lparr>ro_num := Some (Finite N), ro_nextPaginationToken := None\<rparr>) pw)
       = Some (Inr \<lparr>rr_reviews = take (nat N) psrc,
              rr_nextPaginationToken =
                (if nat N < length psrc then Some (tokenOf (nat N)) else None),
              rr_totalCount = Some (min (nat N) (length psrc))\<rparr>)"
    using assms by (intro getReviews_playSource) simp_all
  {
    assume "AppStoreService_getReviewsWithPagination aup aoptions (Finite N) (newWorld s)
          = Some (r, w1)"
    from getReviewsWithPagination_received [OF this pos] assms
    show "asr_reviews r = take (nat N) (received w1)" by simp
  }
  {
    assume "fetchLargeDataset pup poptions (newWorld t) = Some (Inr pr, pw1)"
    then show "rr_reviews pr = receivedPlay pw1" by (rule fetchLargeDataset_received)
  }
qed

text \<open>
  With the target \<open>Infinity\<close> both aggregators return the whole list of such a source.
\<close>

lemma unbounded_target_on_list_sources:
  "(\<exists>w'. AppStoreService_getReviewsWithPagination (pagedSource asrc) aoptions Infinity aw
        = Some (\<lparr>asr_reviews = asrc, asr_hasMore = False, asr_totalCount = length asrc\<rparr>, w'))
   \<and> (\<exists>w'. fetchLargeDataset (playSource psrc) (poptions\<lparr>ro_num := Some Infinity\<rparr>) pw
        = Some (Inr \<lparr>rr_reviews = psrc, rr_nextPaginationToken = None,
                  rr_totalCount = Some (length psrc)\<rparr>, w'))"
proof
  have "numLess 0 Infinity" by simp
  from getReviewsWithPagination_paged [OF this, of asrc aoptions aw]
  show "\<exists>w'. AppStoreService_getReviewsWithPagination (pagedSource asrc) aoptions Infinity aw
        = Some (\<lparr>asr_reviews = asrc, asr_hasMore = False, asr_totalCount = length asrc\<rparr>, w')"
    by simp
  show "\<exists>w'. fetchLargeDataset (playSource psrc) (poptions\<lparr>ro_num := Some Infinity\<rparr>) pw
        = Some (Inr \<lparr>rr_reviews = psrc, rr_nextPaginationToken = None,
                  rr_totalCount = Some (length psrc)\<rparr>, w')"
    by (intro fetchLargeDataset_playSource_Infinity) simp
qed

text \<open>
  The token-cursor aggregator has no step that cuts its result down: it asks for no
  more than is missing and returns what it received, on either path of \<open>getReviews\<close>.
\<close>

lemma play_result_not_trimmed:
  "map_option fst (ReviewService_getReviews (generousPlay threePlayReviews)
      (playOptions (Finite 2)) (playWorld 0))
     = Some (Inr \<lparr>rr_reviews = threePlayReviews, rr_nextPaginationToken = None,
                  rr_totalCount = Some 3\<rparr>)
   \<and> map_option fst (fetchLargeDataset (generousPlay threePlayReviews)
        (playOptions (Finite 2)) (playWorld 0))
     = Some (Inr \<lparr>rr_reviews = threePlayReviews, rr_nextPaginationToken = None,
                  rr_totalCount = Some 3\<rparr>)"
  by (simp add: ReviewService_getReviews_def fetchLargeDataset_def fetchLoop.simps
      fetchBody_def fetchSingleBatch_def generousPlay_def playOptions_def batchSize_def
      truthy_def playWorld_def world_eval threePlayReviews_def Let_def)

end
